theory Spec2Isabelle
  imports Main "HOL-Library.Word" "HOL-Library.Signed_Division"
begin

section \<open>The alarm engine of lib/eal/linux/eal_alarm.c\<close>

text \<open>
  The file is built for Linux on an LP64 target: \<open>uint64_t\<close>, \<open>time_t\<close>, \<open>suseconds_t\<close>,
  \<open>long\<close>, \<open>pthread_t\<close> and every pointer are 64 bits wide. All of them are \<open>64 word\<close>
  here; the signed ones are read with \<open>sint\<close> wherever the C code compares or divides them.
  Values of C type \<open>int\<close> (return codes, \<open>errno\<close> values, counters of list entries) are
  \<open>int\<close>: none of them comes near the 32-bit range for a list that fits in memory.
\<close>

subsection \<open>Constants\<close>

definition NS_PER_US :: "64 word" where
  "NS_PER_US = 1000"

definition US_PER_MS :: "64 word" where
  "US_PER_MS = 1000"

definition MS_PER_S :: "64 word" where
  "MS_PER_S = 1000"

definition US_PER_S :: "64 word" where
  "US_PER_S = US_PER_MS * MS_PER_S"

definition UINT64_MAX :: "64 word" where
  "UINT64_MAX = 0xFFFFFFFFFFFFFFFF"

text \<open>The \<open>errno\<close> numbers of Linux.\<close>

definition ENOENT :: int where
  "ENOENT = 2"

definition ENOMEM :: int where
  "ENOMEM = 12"

definition EINVAL :: int where
  "EINVAL = 22"

definition EINPROGRESS :: int where
  "EINPROGRESS = 115"

subsection \<open>Data\<close>

text \<open>
  \<open>struct timeval\<close> and \<open>struct timespec\<close>. Both C structs call their first field
  \<open>tv_sec\<close>; the one of \<open>timespec\<close> is \<open>ts_sec\<close> here.
\<close>

record timeval =
  tv_sec :: "64 word"
  tv_usec :: "64 word"

record timespec =
  ts_sec :: "64 word"
  tv_nsec :: "64 word"

text \<open>
  \<open>struct alarm_entry\<close>. The link \<open>next\<close> is the position in the list \<open>alarm_list\<close>;
  \<open>addr\<close> is the address of the node itself, which the code compares in
  \<open>LIST_FIRST(&alarm_list) == new_alarm\<close>.
\<close>

record alarm_entry =
  addr :: "64 word"
  time :: timeval
  cb_fn :: "64 word"
  cb_arg :: "64 word"
  executing :: "8 word"
  executing_id :: "64 word"

text \<open>
  What the engine does to the outside, in the order it does it: taking and releasing
  \<open>alarm_list_lk\<close>, \<open>rte_intr_callback_register\<close>, \<open>timerfd_settime\<close> with the
  \<open>it_value\<close> it writes, the call \<open>ap->cb_fn(ap->cb_arg)\<close> with the content of \<open>*ap\<close> at
  that moment, and \<open>free(ap)\<close> with the content of the node freed.
\<close>

datatype event =
    Lock
  | Unlock
  | Register
  | Settime timespec
  | Call alarm_entry
  | Free alarm_entry

text \<open>
  The file's static variables, the \<open>rte_errno\<close> of the calling thread, and the trace of
  events.
\<close>

record alarm_state =
  alarm_list :: "alarm_entry list"
  handler_registered :: int
  rte_errno :: int
  trace :: "event list"

subsection \<open>\<open>rte_eal_alarm_set\<close>\<close>

text \<open>
  What the environment answers during one call of \<open>rte_eal_alarm_set\<close>: the pointer
  returned by \<open>calloc\<close> (0 is \<open>NULL\<close>), the content of \<open>now\<close> after \<open>clock_gettime\<close>
  (whose return value the function does not look at), and the return values of
  \<open>rte_intr_callback_register\<close> and \<open>timerfd_settime\<close>.
\<close>

record set_env =
  calloc_ret :: "64 word"
  clock_now :: timespec
  register_ret :: int
  settime_ret :: int

text \<open>
  \<open>now.tv_nsec / NS_PER_US\<close> divides two signed \<open>long\<close> values, truncating towards zero.
\<close>

definition sdiv64 :: "64 word \<Rightarrow> 64 word \<Rightarrow> 64 word" where
  "sdiv64 a b = word_of_int (sint a sdiv sint b)"

text \<open>
  The record filled in lines 149 to 152. The sum \<open>(now.tv_nsec / NS_PER_US) + us\<close> is
  computed in \<open>uint64_t\<close>, as is the sum with \<open>now.tv_sec\<close>; \<open>calloc\<close> zeroes the other
  fields.
\<close>

definition new_alarm :: "64 word \<Rightarrow> timespec \<Rightarrow> 64 word \<Rightarrow> 64 word \<Rightarrow> 64 word \<Rightarrow> alarm_entry" where
  "new_alarm p now us cb arg =
     \<lparr>addr = p,
      time = \<lparr>tv_sec = ts_sec now + ((sdiv64 (tv_nsec now) NS_PER_US + us) div US_PER_S),
              tv_usec = (sdiv64 (tv_nsec now) NS_PER_US + us) mod US_PER_S\<rparr>,
      cb_fn = cb,
      cb_arg = arg,
      executing = 0,
      executing_id = 0\<rparr>"

text \<open>The test of lines 166 to 168: \<open>ap\<close> is due strictly after \<open>new_alarm\<close>.\<close>

definition later :: "alarm_entry \<Rightarrow> alarm_entry \<Rightarrow> bool" where
  "later ap new \<longleftrightarrow>
     sint (tv_sec (time ap)) > sint (tv_sec (time new)) \<or>
     (tv_sec (time ap) = tv_sec (time new) \<and>
      sint (tv_usec (time ap)) > sint (tv_usec (time new)))"

text \<open>
  Lines 162 to 177: \<open>LIST_INSERT_HEAD\<close> into the empty list, else the \<open>LIST_FOREACH\<close> that
  inserts before the first later entry, or after the last entry.
\<close>

fun alarm_insert :: "alarm_entry \<Rightarrow> alarm_entry list \<Rightarrow> alarm_entry list" where
  "alarm_insert new [] = [new]"
| "alarm_insert new (ap # rest) =
     (if later ap new then new # ap # rest
      else if rest = [] then [ap, new]
      else ap # alarm_insert new rest)"

definition rte_eal_alarm_set ::
  "set_env \<Rightarrow> 64 word \<Rightarrow> 64 word \<Rightarrow> 64 word \<Rightarrow> alarm_state \<Rightarrow> int \<times> alarm_state" where
  "rte_eal_alarm_set env us cb arg s =
     (if us < 1 \<or> us > UINT64_MAX - US_PER_S \<or> cb = 0 then (- EINVAL, s)
      else if calloc_ret env = 0 then (- ENOMEM, s)
      else
        let new = new_alarm (calloc_ret env) (clock_now env) us cb arg;
            s1 = s\<lparr>trace := trace s @ [Lock]\<rparr>;
            s2 = (if handler_registered s1 = 0
                  then s1\<lparr>handler_registered :=
                            (if register_ret env = 0 then 1 else handler_registered s1),
                          trace := trace s1 @ [Register]\<rparr>
                  else s1);
            s3 = s2\<lparr>alarm_list := alarm_insert new (alarm_list s2)\<rparr>;
            is_first = (addr (hd (alarm_list s3)) = addr new);
            ret = (if is_first then or 0 (settime_ret env) else 0);
            s4 = (if is_first
                  then s3\<lparr>trace := trace s3 @
                            [Settime \<lparr>ts_sec = us div US_PER_S,
                                      tv_nsec = (us mod US_PER_S) * NS_PER_US\<rparr>]\<rparr>
                  else s3)
        in (ret, s4\<lparr>trace := trace s4 @ [Unlock]\<rparr>))"

subsection \<open>\<open>rte_eal_alarm_cancel\<close>\<close>

text \<open>
  The test of lines 214 to 215 and 240 to 241. \<open>(void *)-1\<close> is the word \<open>- 1\<close>.
\<close>

definition alarm_match :: "64 word \<Rightarrow> 64 word \<Rightarrow> alarm_entry \<Rightarrow> bool" where
  "alarm_match cb arg ap \<longleftrightarrow> cb = cb_fn ap \<and> (arg = - 1 \<or> arg = cb_arg ap)"

definition pthread_equal :: "64 word \<Rightarrow> 64 word \<Rightarrow> int" where
  "pthread_equal t1 t2 = (if t1 = t2 then 1 else 0)"

text \<open>
  The locals \<open>count\<close>, \<open>err\<close> and \<open>executing\<close> of \<open>rte_eal_alarm_cancel\<close>, and the
  \<open>free\<close> calls made so far in the pass.
\<close>

type_synonym cancel_vars = "int \<times> int \<times> int \<times> event list"

text \<open>
  Lines 213 to 234, the loop on \<open>LIST_FIRST\<close>: a matching head that is not executing is
  removed and freed; a matching head that is executing ends the loop, as does a head that
  does not match.
\<close>

fun cancel_head ::
  "64 word \<Rightarrow> 64 word \<Rightarrow> 64 word \<Rightarrow> alarm_entry list \<Rightarrow> cancel_vars \<Rightarrow>
   alarm_entry list \<times> cancel_vars" where
  "cancel_head cb arg self [] v = ([], v)"
| "cancel_head cb arg self (ap # rest) (count, err, exec, fr) =
     (if alarm_match cb arg ap then
        (if executing ap = 0
         then cancel_head cb arg self rest (count + 1, err, exec, fr @ [Free ap])
         else if pthread_equal (executing_id ap) self = 0
         then (ap # rest, (count, err, exec + 1, fr))
         else (ap # rest, (count, EINPROGRESS, exec, fr)))
      else (ap # rest, (count, err, exec, fr)))"

text \<open>
  Lines 238 to 254, the \<open>LIST_FOREACH\<close> from the head of the list again. An entry removed
  here is never the first one visited (\<open>cancel_head\<close> has left a head that does not match
  or that is executing), so \<open>ap = ap_prev\<close> steps back to a node that is still linked and
  the walk goes on with the successor of the removed node.
\<close>

fun cancel_sweep ::
  "64 word \<Rightarrow> 64 word \<Rightarrow> 64 word \<Rightarrow> alarm_entry list \<Rightarrow> cancel_vars \<Rightarrow>
   alarm_entry list \<times> cancel_vars" where
  "cancel_sweep cb arg self [] v = ([], v)"
| "cancel_sweep cb arg self (ap # rest) (count, err, exec, fr) =
     (if alarm_match cb arg ap then
        (if executing ap = 0
         then cancel_sweep cb arg self rest (count + 1, err, exec, fr @ [Free ap])
         else if pthread_equal (executing_id ap) self = 0
         then (let (l, v) = cancel_sweep cb arg self rest (count, err, exec + 1, fr)
               in (ap # l, v))
         else (let (l, v) = cancel_sweep cb arg self rest (count, EINPROGRESS, exec, fr)
               in (ap # l, v)))
      else (let (l, v) = cancel_sweep cb arg self rest (count, err, exec, fr)
            in (ap # l, v)))"

text \<open>One pass of the \<open>do\<close> loop under the lock: \<open>executing = 0\<close>, then both loops.\<close>

definition cancel_pass ::
  "64 word \<Rightarrow> 64 word \<Rightarrow> 64 word \<Rightarrow> alarm_entry list \<Rightarrow> int \<Rightarrow> int \<Rightarrow>
   alarm_entry list \<times> cancel_vars" where
  "cancel_pass cb arg self l count err =
     (let (l1, v1) = cancel_head cb arg self l (count, err, 0, [])
      in cancel_sweep cb arg self l1 v1)"

text \<open>
  The \<open>do ... while (executing != 0)\<close> loop. Between \<open>rte_spinlock_unlock\<close> and the next
  \<open>rte_spinlock_lock\<close> other threads run: \<open>other k\<close> is what they do to the list after
  pass \<open>k\<close>. The loop need not end, so its result is an option.
\<close>

partial_function (option) cancel_loop ::
  "(nat \<Rightarrow> alarm_entry list \<Rightarrow> alarm_entry list) \<Rightarrow> nat \<Rightarrow> 64 word \<Rightarrow> 64 word \<Rightarrow> 64 word \<Rightarrow>
   alarm_state \<Rightarrow> int \<Rightarrow> int \<Rightarrow> (alarm_state \<times> int \<times> int) option" where
  "cancel_loop other k cb arg self s count err =
     (let r = cancel_pass cb arg self (alarm_list s) count err;
          l = fst r;
          count' = fst (snd r);
          err' = fst (snd (snd r));
          exec = fst (snd (snd (snd r)));
          fr = snd (snd (snd (snd r)));
          tr = trace s @ [Lock] @ fr @ [Unlock]
      in if exec \<noteq> 0
         then cancel_loop other (Suc k) cb arg self
                (s\<lparr>alarm_list := other k l, trace := tr\<rparr>) count' err'
         else Some (s\<lparr>alarm_list := l, trace := tr\<rparr>, count', err'))"

declare cancel_loop.simps [code]

definition rte_eal_alarm_cancel ::
  "(nat \<Rightarrow> alarm_entry list \<Rightarrow> alarm_entry list) \<Rightarrow> 64 word \<Rightarrow> 64 word \<Rightarrow> 64 word \<Rightarrow>
   alarm_state \<Rightarrow> (int \<times> alarm_state) option" where
  "rte_eal_alarm_cancel other cb arg self s =
     (if cb = 0 then Some (- 1, s\<lparr>rte_errno := EINVAL\<rparr>)
      else
        case cancel_loop other 0 cb arg self s 0 0 of
          None \<Rightarrow> None
        | Some (s', count, err) \<Rightarrow>
            Some (count,
                  if count = 0 \<and> err = 0 then s'\<lparr>rte_errno := ENOENT\<rparr>
                  else if err \<noteq> 0 then s'\<lparr>rte_errno := err\<rparr>
                  else s'))"

subsection \<open>\<open>eal_alarm_callback\<close>\<close>

text \<open>The test of lines 98 to 99: the deadline of \<open>ap\<close> is not after \<open>now\<close>.\<close>

definition alarm_due :: "alarm_entry \<Rightarrow> timespec \<Rightarrow> bool" where
  "alarm_due ap now \<longleftrightarrow>
     sint (tv_sec (time ap)) < sint (ts_sec now) \<or>
     (tv_sec (time ap) = ts_sec now \<and>
      sint (tv_usec (time ap) * NS_PER_US) \<le> sint (tv_nsec now))"

text \<open>
  \<open>LIST_REMOVE(ap, next)\<close>: the node at address \<open>p\<close> is unlinked, wherever it stands.
  The nodes linked in the list are live allocations, so their addresses are distinct.
\<close>

definition list_remove :: "64 word \<Rightarrow> alarm_entry list \<Rightarrow> alarm_entry list" where
  "list_remove p l = filter (\<lambda>e. addr e \<noteq> p) l"

text \<open>
  Lines 96 to 110. \<open>clock k\<close> is the answer of the \<open>k\<close>-th \<open>clock_gettime\<close> of the call,
  \<open>None\<close> when it does not return 0; \<open>now\<close> then keeps what it held. Between
  \<open>rte_spinlock_unlock\<close> and \<open>rte_spinlock_lock\<close> the callback runs and may call
  \<open>rte_eal_alarm_set\<close> and \<open>rte_eal_alarm_cancel\<close>, as may other threads: \<open>during k\<close> is
  what they all do to the list while callback number \<open>k\<close> runs. The handler then unlinks
  the node \<open>ap\<close> itself and reads \<open>LIST_FIRST\<close> again. Callbacks can add due alarms
  for ever, so the result is an option.
\<close>

partial_function (option) dispatch_loop ::
  "(nat \<Rightarrow> timespec option) \<Rightarrow> (nat \<Rightarrow> alarm_entry list \<Rightarrow> alarm_entry list) \<Rightarrow> 64 word \<Rightarrow>
   nat \<Rightarrow> timespec \<Rightarrow> alarm_entry list \<Rightarrow> event list \<Rightarrow>
   (alarm_entry list \<times> timespec \<times> event list) option" where
  "dispatch_loop clock during self k now l tr =
     (case l of
        [] \<Rightarrow> Some ([], now, tr)
      | ap # rest \<Rightarrow>
          (case clock k of
             None \<Rightarrow> Some (ap # rest, now, tr)
           | Some now' \<Rightarrow>
               if alarm_due ap now'
               then (let ap' = ap\<lparr>executing := 1, executing_id := self\<rparr>;
                         l' = list_remove (addr ap) (during k (ap' # rest))
                     in dispatch_loop clock during self (Suc k) now' l'
                          (tr @ [Unlock, Call ap', Lock, Free ap']))
               else Some (ap # rest, now', tr)))"

declare dispatch_loop.simps [code]

text \<open>Lines 115 to 125: the \<open>it_value\<close> computed for the head \<open>ap\<close>.\<close>

definition rearm :: "timespec \<Rightarrow> alarm_entry \<Rightarrow> timespec" where
  "rearm now ap =
     (let borrow = sint (tv_nsec now) > sint (tv_usec (time ap) * NS_PER_US);
          sec = (if borrow then tv_sec (time ap) - 1 else tv_sec (time ap));
          nsec = (if borrow then tv_usec (time ap) * NS_PER_US + US_PER_S * NS_PER_US
                  else tv_usec (time ap) * NS_PER_US)
      in \<lparr>ts_sec = sec - ts_sec now, tv_nsec = nsec - tv_nsec now\<rparr>)"

text \<open>
  The whole handler. \<open>now0\<close> is what the uninitialised local \<open>now\<close> holds on entry.
\<close>

definition eal_alarm_callback ::
  "(nat \<Rightarrow> timespec option) \<Rightarrow> (nat \<Rightarrow> alarm_entry list \<Rightarrow> alarm_entry list) \<Rightarrow> 64 word \<Rightarrow>
   timespec \<Rightarrow> alarm_state \<Rightarrow> alarm_state option" where
  "eal_alarm_callback clock during self now0 s =
     (case dispatch_loop clock during self 0 now0 (alarm_list s) (trace s @ [Lock]) of
        None \<Rightarrow> None
      | Some (l, now, tr) \<Rightarrow>
          Some (s\<lparr>alarm_list := l,
                  trace := (if l \<noteq> [] then tr @ [Settime (rearm now (hd l))] else tr) @
                           [Unlock]\<rparr>))"

subsection \<open>Vocabulary of the statements\<close>

text \<open>
  The three states in which a pass of cancel can meet an entry that matches, written on
  the fields of the entry: the callback is the given one, the argument is the given one
  or the given one is the wildcard \<open>(void *)-1\<close>, and the entry is not executing, or is
  executing on another thread, or is executing on the calling thread.
\<close>

definition cancellable :: "64 word \<Rightarrow> 64 word \<Rightarrow> alarm_entry \<Rightarrow> bool" where
  "cancellable cb arg ap \<longleftrightarrow>
     cb_fn ap = cb \<and> (arg = - 1 \<or> cb_arg ap = arg) \<and> executing ap = 0"

definition busy_other :: "64 word \<Rightarrow> 64 word \<Rightarrow> 64 word \<Rightarrow> alarm_entry \<Rightarrow> bool" where
  "busy_other cb arg self ap \<longleftrightarrow>
     cb_fn ap = cb \<and> (arg = - 1 \<or> cb_arg ap = arg) \<and> executing ap \<noteq> 0 \<and>
     executing_id ap \<noteq> self"

definition busy_self :: "64 word \<Rightarrow> 64 word \<Rightarrow> 64 word \<Rightarrow> alarm_entry \<Rightarrow> bool" where
  "busy_self cb arg self ap \<longleftrightarrow>
     cb_fn ap = cb \<and> (arg = - 1 \<or> cb_arg ap = arg) \<and> executing ap \<noteq> 0 \<and>
     executing_id ap = self"

text \<open>
  \<open>seen other k cb arg j l\<close> is the list that the pass numbered \<open>k + j\<close> of a call finds
  under the lock, when pass \<open>k\<close> found \<open>l\<close>: each pass takes the cancellable entries out
  and the other threads then act on what is left.
\<close>

fun seen ::
  "(nat \<Rightarrow> alarm_entry list \<Rightarrow> alarm_entry list) \<Rightarrow> nat \<Rightarrow> 64 word \<Rightarrow> 64 word \<Rightarrow> nat \<Rightarrow>
   alarm_entry list \<Rightarrow> alarm_entry list" where
  "seen other k cb arg 0 l = l"
| "seen other k cb arg (Suc j) l =
     seen other (Suc k) cb arg j (other k (filter (\<lambda>ap. \<not> cancellable cb arg ap) l))"

text \<open>
  The deadline \<open>(tv_sec, tv_usec)\<close>, both signed 64-bit values, as one integer:
  \<open>deadline_key a \<le> deadline_key b\<close> is the lexicographic order, seconds first, then
  microseconds.
\<close>

definition deadline_key :: "alarm_entry \<Rightarrow> int" where
  "deadline_key ap = sint (tv_sec (time ap)) * 2 ^ 64 + sint (tv_usec (time ap))"

text \<open>A deadline and a clock reading as instants, in nanoseconds.\<close>

definition deadline_ns :: "alarm_entry \<Rightarrow> int" where
  "deadline_ns ap = sint (tv_sec (time ap)) * 1000000000 + sint (tv_usec (time ap)) * 1000"

definition clock_ns :: "timespec \<Rightarrow> int" where
  "clock_ns t = sint (ts_sec t) * 1000000000 + sint (tv_nsec t)"

text \<open>
  \<open>found during self k j l\<close> is the list that test number \<open>k + j\<close> of the dispatch loop finds
  under the lock, when test \<open>k\<close> found \<open>l\<close> and every test in between dispatched its head:
  the head is marked as executing on \<open>self\<close>, the callback and the other threads act on the
  list, and the node of that head is taken out.
\<close>

fun found ::
  "(nat \<Rightarrow> alarm_entry list \<Rightarrow> alarm_entry list) \<Rightarrow> 64 word \<Rightarrow> nat \<Rightarrow> nat \<Rightarrow>
   alarm_entry list \<Rightarrow> alarm_entry list" where
  "found during self k 0 l = l"
| "found during self k (Suc j) l =
     filter (\<lambda>e. addr e \<noteq> addr (hd (found during self k j l)))
       (during (k + j)
          ((hd (found during self k j l))\<lparr>executing := 1, executing_id := self\<rparr> #
           tl (found during self k j l)))"

text \<open>The entries whose callbacks a trace calls, in the order of the calls.\<close>

fun calls :: "event list \<Rightarrow> alarm_entry list" where
  "calls [] = []"
| "calls (Call ap # tr) = ap # calls tr"
| "calls (ev # tr) = calls tr"

text \<open>
  Two behaviours of the other threads during a cancel: none touches the list; the
  dispatch thread returns from the callback it was running and unlinks that entry.
\<close>

definition nobody :: "nat \<Rightarrow> alarm_entry list \<Rightarrow> alarm_entry list" where
  "nobody k l = l"

definition dispatcher_done :: "nat \<Rightarrow> alarm_entry list \<Rightarrow> alarm_entry list" where
  "dispatcher_done k l = filter (\<lambda>ap. executing ap = 0) l"

text \<open>Concrete entries and engine states for the examples.\<close>

definition entry ::
  "64 word \<Rightarrow> 64 word \<Rightarrow> 64 word \<Rightarrow> 64 word \<Rightarrow> 64 word \<Rightarrow> 8 word \<Rightarrow> 64 word \<Rightarrow> alarm_entry" where
  "entry p sec usec cb arg ex tid =
     \<lparr>addr = p, time = \<lparr>tv_sec = sec, tv_usec = usec\<rparr>, cb_fn = cb, cb_arg = arg,
      executing = ex, executing_id = tid\<rparr>"

definition engine :: "alarm_entry list \<Rightarrow> alarm_state" where
  "engine l = \<lparr>alarm_list = l, handler_registered = 0, rte_errno = 0, trace = []\<rparr>"

text \<open>A clock that answers every \<open>clock_gettime\<close> with the same instant.\<close>

definition clock_at :: "64 word \<Rightarrow> 64 word \<Rightarrow> nat \<Rightarrow> timespec option" where
  "clock_at sec nsec k = Some \<lparr>ts_sec = sec, tv_nsec = nsec\<rparr>"

text \<open>
  Two things a callback can do while it runs: call \<open>rte_eal_alarm_set\<close> (the first
  callback of the dispatch arms a new alarm 500 microseconds ahead), or call
  \<open>rte_eal_alarm_cancel\<close> on its own function with the wildcard.
\<close>

definition callback_rearms :: "nat \<Rightarrow> alarm_entry list \<Rightarrow> alarm_entry list" where
  "callback_rearms k l =
     (if k = 0
      then alarm_list (snd (rte_eal_alarm_set
             \<lparr>calloc_ret = 0x2000, clock_now = \<lparr>ts_sec = 6, tv_nsec = 0\<rparr>, register_ret = 0,
              settime_ret = 0\<rparr> 500 7 1 (engine l)))
      else l)"

definition callback_cancels :: "nat \<Rightarrow> alarm_entry list \<Rightarrow> alarm_entry list" where
  "callback_cancels k l =
     (case rte_eal_alarm_cancel nobody 7 (- 1) 9 (engine l) of
        None \<Rightarrow> l
      | Some (count, s') \<Rightarrow> alarm_list s')"

section \<open>Auxiliary facts\<close>

subsection \<open>Signed and unsigned 64-bit arithmetic\<close>

lemma sint_add64:
  "- (2 ^ 63) \<le> sint a + sint b \<Longrightarrow> sint a + sint b < 2 ^ 63 \<Longrightarrow>
   sint (a + b) = sint a + sint b" for a b :: "64 word"
  by (simp add: sint_word_add signed_take_bit_int_eq_self)

lemma sint_diff64:
  "- (2 ^ 63) \<le> sint a - sint b \<Longrightarrow> sint a - sint b < 2 ^ 63 \<Longrightarrow>
   sint (a - b) = sint a - sint b" for a b :: "64 word"
  by (simp add: sint_word_diff signed_take_bit_int_eq_self)

lemma sint_mult64:
  "- (2 ^ 63) \<le> sint a * sint b \<Longrightarrow> sint a * sint b < 2 ^ 63 \<Longrightarrow>
   sint (a * b) = sint a * sint b" for a b :: "64 word"
  by (simp add: sint_word_mult signed_take_bit_int_eq_self)

lemma sint_eq_uint64:
  fixes w :: "64 word"
  assumes "uint w < 2 ^ 63"
  shows "sint w = uint w"
proof -
  have "- (2 ^ 63) \<le> uint w"
    by (rule order_trans [of _ 0]) simp_all
  then have "signed_take_bit 63 (uint w) = uint w"
    using assms by (rule signed_take_bit_int_eq_self)
  then show ?thesis by (simp add: sint_uint)
qed

lemma sint64_bounds: "- (2 ^ 63) \<le> sint w" "sint w < 2 ^ 63" for w :: "64 word"
  using sint_ge [of w] sint_lt [of w] by simp_all

lemma US_PER_S_val: "US_PER_S = 1000000"
  by (simp add: US_PER_S_def US_PER_MS_def MS_PER_S_def)

lemma usec_times_1000:
  fixes u :: "64 word"
  assumes "0 \<le> sint u" "sint u < 1000000"
  shows "sint (u * NS_PER_US) = sint u * 1000"
proof -
  have "sint (u * 1000) = sint u * sint (1000 :: 64 word)"
    by (rule sint_mult64) (use assms in simp_all)
  then show ?thesis by (simp add: NS_PER_US_def)
qed

lemma admitted_us:
  assumes "\<not> (us < 1 \<or> us > UINT64_MAX - US_PER_S)"
  shows "1 \<le> uint us" and "uint us \<le> 2 ^ 64 - 1 - 1000000"
proof -
  from assms have "\<not> us < 1" and "\<not> us > UINT64_MAX - US_PER_S"
    by blast+
  then have a: "1 \<le> us" and b: "us \<le> UINT64_MAX - US_PER_S"
    by (simp_all only: not_less)
  from a show "1 \<le> uint us" by (simp add: word_le_def)
  have "uint (UINT64_MAX - US_PER_S) = 2 ^ 64 - 1 - 1000000"
    by (simp add: UINT64_MAX_def US_PER_S_val)
  with b show "uint us \<le> 2 ^ 64 - 1 - 1000000" by (simp add: word_le_def)
qed

lemma sdiv64_nsec:
  assumes "0 \<le> sint n" "sint n < 1000000000"
  shows "uint (sdiv64 n NS_PER_US) = sint n div 1000"
proof -
  have "sint n sdiv 1000 = sint n div 1000"
    using assms by (simp add: signed_divide_int_def sgn_if)
  moreover have "0 \<le> sint n div 1000" "sint n div 1000 < 2 ^ 64"
    using assms by simp_all
  ultimately show ?thesis
    by (simp add: sdiv64_def NS_PER_US_def uint_word_of_int)
qed

subsection \<open>Deadlines\<close>

text \<open>
  For a deadline with \<open>0 \<le> tv_usec < 10\<^sup>6\<close> and a clock reading with
  \<open>0 \<le> tv_nsec < 10\<^sup>9\<close> the test of the dispatch loop is the comparison of the two
  instants in nanoseconds.
\<close>

lemma alarm_due_iff:
  assumes "0 \<le> sint (tv_usec (time ap))" "sint (tv_usec (time ap)) < 1000000"
    and "0 \<le> sint (tv_nsec now)" "sint (tv_nsec now) < 1000000000"
  shows "alarm_due ap now \<longleftrightarrow>
     sint (tv_sec (time ap)) * 1000000000 + sint (tv_usec (time ap)) * 1000
       \<le> sint (ts_sec now) * 1000000000 + sint (tv_nsec now)"
proof -
  have eq: "tv_sec (time ap) = ts_sec now \<longleftrightarrow> sint (tv_sec (time ap)) = sint (ts_sec now)"
    by (simp add: word_eq_iff_signed [where ?'a = int])
  show ?thesis
    unfolding alarm_due_def eq usec_times_1000 [OF assms(1,2)]
    using assms by auto
qed

lemma rearm_interval:
  assumes u: "0 \<le> sint (tv_usec (time ap))" "sint (tv_usec (time ap)) < 1000000"
    and n: "0 \<le> sint (tv_nsec now)" "sint (tv_nsec now) < 1000000000"
    and s: "0 \<le> sint (ts_sec now)"
    and nd: "\<not> alarm_due ap now"
  shows "sint (ts_sec (rearm now ap)) * 1000000000 + sint (tv_nsec (rearm now ap)) =
           (sint (tv_sec (time ap)) * 1000000000 + sint (tv_usec (time ap)) * 1000) -
           (sint (ts_sec now) * 1000000000 + sint (tv_nsec now)) \<and>
         0 \<le> sint (tv_nsec (rearm now ap)) \<and>
         sint (tv_nsec (rearm now ap)) < 1000000000 \<and>
         0 \<le> sint (ts_sec (rearm now ap)) \<and>
         0 < sint (ts_sec (rearm now ap)) * 1000000000 + sint (tv_nsec (rearm now ap))"
proof -
  let ?S = "sint (tv_sec (time ap))" and ?U = "sint (tv_usec (time ap))"
  let ?T = "sint (ts_sec now)" and ?N = "sint (tv_nsec now)"
  have m: "sint (tv_usec (time ap) * NS_PER_US) = ?U * 1000"
    by (rule usec_times_1000 [OF u])
  have eq: "tv_sec (time ap) = ts_sec now \<longleftrightarrow> ?S = ?T"
    by (simp add: word_eq_iff_signed [where ?'a = int])
  from nd have late: "?T \<le> ?S" "?S = ?T \<longrightarrow> ?N < ?U * 1000"
    unfolding alarm_due_def eq m by auto
  have sb: "?S < 2 ^ 63" by (rule sint64_bounds)
  have G: "sint (US_PER_S * NS_PER_US) = 1000000000"
    by (simp add: US_PER_S_def US_PER_MS_def MS_PER_S_def NS_PER_US_def)
  show ?thesis
  proof (cases "?N > ?U * 1000")
    case True
    with late have lt: "?T < ?S" by auto
    have 1: "sint (tv_sec (time ap) - 1) = ?S - 1"
      by (rule sint_diff64 [of "tv_sec (time ap)" 1, simplified]) (use lt s sb in simp_all)
    have 2: "sint (tv_sec (time ap) - 1 - ts_sec now) = ?S - 1 - ?T"
      using sint_diff64 [of "tv_sec (time ap) - 1" "ts_sec now"] lt s sb unfolding 1 by simp
    have 3: "sint (tv_usec (time ap) * NS_PER_US + US_PER_S * NS_PER_US) = ?U * 1000 + 1000000000"
      using sint_add64 [of "tv_usec (time ap) * NS_PER_US" "US_PER_S * NS_PER_US"] u
      unfolding m G by simp
    have 4: "sint (tv_usec (time ap) * NS_PER_US + US_PER_S * NS_PER_US - tv_nsec now) =
        ?U * 1000 + 1000000000 - ?N"
      using sint_diff64 [of "tv_usec (time ap) * NS_PER_US + US_PER_S * NS_PER_US" "tv_nsec now"]
        u n unfolding 3 by simp
    have r: "rearm now ap = \<lparr>ts_sec = tv_sec (time ap) - 1 - ts_sec now,
        tv_nsec = tv_usec (time ap) * NS_PER_US + US_PER_S * NS_PER_US - tv_nsec now\<rparr>"
      using True by (simp add: rearm_def m)
    show ?thesis
      unfolding r using True lt u n by (simp add: 2 4)
  next
    case False
    have 2: "sint (tv_sec (time ap) - ts_sec now) = ?S - ?T"
      using sint_diff64 [of "tv_sec (time ap)" "ts_sec now"] late s sb by simp
    have 4: "sint (tv_usec (time ap) * NS_PER_US - tv_nsec now) = ?U * 1000 - ?N"
      using sint_diff64 [of "tv_usec (time ap) * NS_PER_US" "tv_nsec now"]
        u n unfolding m by simp
    have r: "rearm now ap = \<lparr>ts_sec = tv_sec (time ap) - ts_sec now,
        tv_nsec = tv_usec (time ap) * NS_PER_US - tv_nsec now\<rparr>"
      using False by (simp add: rearm_def m)
    have pos: "0 < (?S - ?T) * 1000000000 + (?U * 1000 - ?N)"
    proof (cases "?S = ?T")
      case True
      with late show ?thesis by simp
    next
      case False
      with late have "1 \<le> ?S - ?T" by linarith
      with \<open>\<not> ?U * 1000 < ?N\<close> show ?thesis by simp
    qed
    show ?thesis
      unfolding r using False late u n pos by (simp add: 2 4)
  qed
qed

lemma new_alarm_time:
  assumes adm: "\<not> (us < 1 \<or> us > UINT64_MAX - US_PER_S)"
    and n: "0 \<le> sint (tv_nsec now)" "sint (tv_nsec now) < 1000000000"
    and s: "sint (ts_sec now) + (sint (tv_nsec now) div 1000 + uint us) div 1000000 < 2 ^ 63"
  shows "uint (sdiv64 (tv_nsec now) NS_PER_US + us) = sint (tv_nsec now) div 1000 + uint us \<and>
         sint (tv_usec (time (new_alarm p now us cb arg))) =
           (sint (tv_nsec now) div 1000 + uint us) mod 1000000 \<and>
         sint (tv_sec (time (new_alarm p now us cb arg))) =
           sint (ts_sec now) + (sint (tv_nsec now) div 1000 + uint us) div 1000000"
proof -
  let ?q = "sdiv64 (tv_nsec now) NS_PER_US"
  let ?m = "sint (tv_nsec now) div 1000 + uint us"
  have q: "uint ?q = sint (tv_nsec now) div 1000"
    by (rule sdiv64_nsec [OF n])
  have qb: "sint (tv_nsec now) div 1000 < 1000000" "0 \<le> sint (tv_nsec now) div 1000"
    using n by simp_all
  have ub: "1 \<le> uint us" "uint us \<le> 2 ^ 64 - 1 - 1000000"
    by (rule admitted_us [OF adm])+
  have "uint ?q + uint us < 2 ^ 64"
    unfolding q using qb ub by simp
  then have sum: "uint (?q + us) = ?m"
    unfolding q [symmetric] by (simp add: uint_add_lem [symmetric])
  have m0: "0 \<le> ?m" using qb ub by linarith
  have U: "uint ((?q + us) mod US_PER_S) = ?m mod 1000000"
    by (simp add: uint_mod_distrib sum US_PER_S_val)
  have "?m mod 1000000 < 2 ^ 63"
    by (rule less_trans [of _ 1000000]) simp_all
  then have usec: "sint ((?q + us) mod US_PER_S) = ?m mod 1000000"
    using sint_eq_uint64 [of "(?q + us) mod US_PER_S"] unfolding U by simp
  have D: "uint ((?q + us) div US_PER_S) = ?m div 1000000"
    by (simp add: uint_div_distrib sum US_PER_S_val)
  have "?m < 2 ^ 64" using qb ub by simp
  then have "?m div 1000000 < 2 ^ 63" by simp
  then have d: "sint ((?q + us) div US_PER_S) = ?m div 1000000"
    using sint_eq_uint64 [of "(?q + us) div US_PER_S"] unfolding D by simp
  have d0: "0 \<le> ?m div 1000000" using m0 by simp
  have "sint (ts_sec now + (?q + us) div US_PER_S) = sint (ts_sec now) + ?m div 1000000"
    using sint_add64 [of "ts_sec now" "(?q + us) div US_PER_S"] s d0 sint64_bounds(1) [of "ts_sec now"]
    unfolding d by simp
  with sum usec show ?thesis
    by (simp add: new_alarm_def)
qed

lemma deadline_key_less_iff:
  "deadline_key new < deadline_key ap \<longleftrightarrow>
     sint (tv_sec (time new)) < sint (tv_sec (time ap)) \<or>
     (sint (tv_sec (time new)) = sint (tv_sec (time ap)) \<and>
      sint (tv_usec (time new)) < sint (tv_usec (time ap)))"
proof -
  let ?S = "sint (tv_sec (time ap))" and ?U = "sint (tv_usec (time ap))"
  let ?S' = "sint (tv_sec (time new))" and ?U' = "sint (tv_usec (time new))"
  have b: "- (2 ^ 63) \<le> ?U" "?U < 2 ^ 63" "- (2 ^ 63) \<le> ?U'" "?U' < 2 ^ 63"
    by (rule sint64_bounds)+
  have "?S' < ?S \<or> (?S' = ?S \<and> ?U' < ?U) \<longleftrightarrow> ?S' * 2 ^ 64 + ?U' < ?S * 2 ^ 64 + ?U"
  proof (cases "?S' < ?S")
    case True
    then have "?S' + 1 \<le> ?S" by simp
    then have "(?S' + 1) * 2 ^ 64 \<le> ?S * 2 ^ 64" by (rule mult_right_mono) simp
    with b True show ?thesis by (simp add: algebra_simps)
  next
    case False
    show ?thesis
    proof (cases "?S' = ?S")
      case True
      then show ?thesis by simp
    next
      case ne: False
      with False have "?S + 1 \<le> ?S'" by simp
      then have "(?S + 1) * 2 ^ 64 \<le> ?S' * 2 ^ 64" by (rule mult_right_mono) simp
      with b False ne show ?thesis by (simp add: algebra_simps)
    qed
  qed
  then show ?thesis
    unfolding deadline_key_def by simp
qed

lemma deadline_key_le_iff:
  "deadline_key a \<le> deadline_key b \<longleftrightarrow>
     sint (tv_sec (time a)) < sint (tv_sec (time b)) \<or>
     (sint (tv_sec (time a)) = sint (tv_sec (time b)) \<and>
      sint (tv_usec (time a)) \<le> sint (tv_usec (time b)))"
  unfolding not_less [symmetric] deadline_key_less_iff by auto

lemma later_iff_key: "later ap new \<longleftrightarrow> deadline_key new < deadline_key ap"
proof -
  have eq: "tv_sec (time ap) = tv_sec (time new) \<longleftrightarrow>
      sint (tv_sec (time new)) = sint (tv_sec (time ap))"
    by (auto simp: word_eq_iff_signed [where ?'a = int])
  show ?thesis
    unfolding later_def eq deadline_key_less_iff by auto
qed

subsection \<open>Insertion\<close>

lemma alarm_insert_eq:
  "alarm_insert new l =
     takeWhile (\<lambda>ap. \<not> later ap new) l @ new # dropWhile (\<lambda>ap. \<not> later ap new) l"
  by (induction l) auto

lemma new_in_alarm_insert: "new \<in> set (alarm_insert new l)"
  by (simp add: alarm_insert_eq)

lemma sorted_takeWhile_filter:
  "sorted_wrt (\<lambda>a b. f a \<le> f b) l \<Longrightarrow>
   takeWhile (\<lambda>a. f a \<le> c) l = filter (\<lambda>a. f a \<le> c) l" for f :: "'a \<Rightarrow> int"
proof (induction l)
  case Nil
  show ?case by simp
next
  case (Cons a l)
  show ?case
  proof (cases "f a \<le> c")
    case True
    with Cons show ?thesis by simp
  next
    case False
    with Cons.prems have "\<forall>b\<in>set l. \<not> f b \<le> c" by auto
    with False show ?thesis by (simp add: filter_empty_conv [THEN iffD2])
  qed
qed

lemma sorted_dropWhile_filter:
  "sorted_wrt (\<lambda>a b. f a \<le> f b) l \<Longrightarrow>
   dropWhile (\<lambda>a. f a \<le> c) l = filter (\<lambda>a. \<not> f a \<le> c) l" for f :: "'a \<Rightarrow> int"
proof (induction l)
  case Nil
  show ?case by simp
next
  case (Cons a l)
  show ?case
  proof (cases "f a \<le> c")
    case True
    with Cons show ?thesis by simp
  next
    case False
    with Cons.prems have "\<forall>b\<in>set l. \<not> f b \<le> c" by auto
    then have "filter (\<lambda>a. \<not> f a \<le> c) l = l" by (simp add: filter_id_conv)
    with False show ?thesis by simp
  qed
qed

lemma alarm_insert_sorted:
  assumes "sorted_wrt (\<lambda>a b. \<not> later a b) l"
  shows "alarm_insert new l =
           filter (\<lambda>ap. \<not> later ap new) l @ new # filter (\<lambda>ap. later ap new) l"
    and "sorted_wrt (\<lambda>a b. \<not> later a b) (alarm_insert new l)"
proof -
  have k: "(\<lambda>a b. \<not> later a b) = (\<lambda>a b. deadline_key a \<le> deadline_key b)"
    by (simp add: later_iff_key not_less fun_eq_iff)
  have k1: "(\<lambda>ap. \<not> later ap new) = (\<lambda>ap. deadline_key ap \<le> deadline_key new)"
    by (simp add: later_iff_key not_less fun_eq_iff)
  have k2: "(\<lambda>ap. later ap new) = (\<lambda>ap. \<not> deadline_key ap \<le> deadline_key new)"
    by (auto simp: later_iff_key fun_eq_iff)
  from assms have s: "sorted_wrt (\<lambda>a b. deadline_key a \<le> deadline_key b) l"
    unfolding k .
  show e: "alarm_insert new l =
           filter (\<lambda>ap. \<not> later ap new) l @ new # filter (\<lambda>ap. later ap new) l"
    unfolding alarm_insert_eq k1 k2
    by (simp add: sorted_takeWhile_filter [OF s] sorted_dropWhile_filter [OF s])
  show "sorted_wrt (\<lambda>a b. \<not> later a b) (alarm_insert new l)"
    unfolding e unfolding k k1 k2
    using s by (auto simp: sorted_wrt_append intro: sorted_wrt_filter)
qed

lemma alarm_insert_key:
  assumes "sorted_wrt (\<lambda>a b. deadline_key a \<le> deadline_key b) l"
  shows "alarm_insert new l =
           filter (\<lambda>ap. deadline_key ap \<le> deadline_key new) l @ new #
           filter (\<lambda>ap. deadline_key new < deadline_key ap) l \<and>
         sorted_wrt (\<lambda>a b. deadline_key a \<le> deadline_key b) (alarm_insert new l)"
proof -
  have k: "(\<lambda>a b. \<not> later a b) = (\<lambda>a b. deadline_key a \<le> deadline_key b)"
    by (simp add: later_iff_key not_less fun_eq_iff)
  have k1: "(\<lambda>ap. \<not> later ap new) = (\<lambda>ap. deadline_key ap \<le> deadline_key new)"
    by (simp add: later_iff_key not_less fun_eq_iff)
  have k2: "(\<lambda>ap. later ap new) = (\<lambda>ap. deadline_key new < deadline_key ap)"
    by (simp add: later_iff_key fun_eq_iff)
  from assms have "sorted_wrt (\<lambda>a b. \<not> later a b) l"
    unfolding k .
  from alarm_insert_sorted [OF this, of new] show ?thesis
    unfolding k k1 k2 by blast
qed

lemma set_admitted:
  assumes "\<not> (us < 1 \<or> us > UINT64_MAX - US_PER_S \<or> cb = 0)" "calloc_ret env \<noteq> 0"
  shows "alarm_list (snd (rte_eal_alarm_set env us cb arg s)) =
           alarm_insert (new_alarm (calloc_ret env) (clock_now env) us cb arg) (alarm_list s)"
    and "handler_registered (snd (rte_eal_alarm_set env us cb arg s)) =
           (if handler_registered s = 0 \<and> register_ret env = 0 then 1 else handler_registered s)"
    and "rte_errno (snd (rte_eal_alarm_set env us cb arg s)) = rte_errno s"
    and "fst (rte_eal_alarm_set env us cb arg s) =
           (if addr (hd (alarm_insert (new_alarm (calloc_ret env) (clock_now env) us cb arg)
                          (alarm_list s))) = calloc_ret env
            then settime_ret env else 0)"
    and "\<exists>w. trace (snd (rte_eal_alarm_set env us cb arg s)) =
           trace s @ Lock # (if handler_registered s = 0 then [Register] else []) @ w @ [Unlock] \<and>
           Register \<notin> set w"
  using assms by (auto simp: rte_eal_alarm_set_def Let_def new_alarm_def)

subsection \<open>One pass of cancel, and the loop around it\<close>

text \<open>
  \<open>cancel_head\<close> stops at the first entry that is not cancellable, so the second loop
  never removes the first entry it visits.
\<close>

lemma cancellable_code:
  "cancellable cb arg ap \<longleftrightarrow> alarm_match cb arg ap \<and> executing ap = 0"
  by (auto simp: cancellable_def alarm_match_def)

lemma busy_other_code:
  "busy_other cb arg self ap \<longleftrightarrow>
     alarm_match cb arg ap \<and> executing ap \<noteq> 0 \<and> pthread_equal (executing_id ap) self = 0"
  by (auto simp: busy_other_def alarm_match_def pthread_equal_def)

lemma busy_self_code:
  "busy_self cb arg self ap \<longleftrightarrow>
     alarm_match cb arg ap \<and> executing ap \<noteq> 0 \<and> pthread_equal (executing_id ap) self \<noteq> 0"
  by (auto simp: busy_self_def alarm_match_def pthread_equal_def)

lemma cancel_sweep_eq:
  "cancel_sweep cb arg self l (count, err, exec, fr) =
     (filter (\<lambda>ap. \<not> cancellable cb arg ap) l,
      count + int (length (filter (cancellable cb arg) l)),
      (if \<exists>ap\<in>set l. busy_self cb arg self ap then EINPROGRESS else err),
      exec + int (length (filter (busy_other cb arg self) l)),
      fr @ map Free (filter (cancellable cb arg) l))"
proof (induction l arbitrary: count err exec fr)
  case Nil
  show ?case by simp
next
  case (Cons ap rest)
  show ?case
    by (simp add: Cons.IH cancellable_code busy_other_code busy_self_code)
qed

lemma cancel_head_eq:
  "cancel_head cb arg self l (count, err, exec, fr) =
     (dropWhile (cancellable cb arg) l,
      count + int (length (takeWhile (cancellable cb arg) l)),
      (case dropWhile (cancellable cb arg) l of
         [] \<Rightarrow> err
       | ap # _ \<Rightarrow> if busy_self cb arg self ap then EINPROGRESS else err),
      (case dropWhile (cancellable cb arg) l of
         [] \<Rightarrow> exec
       | ap # _ \<Rightarrow> if busy_other cb arg self ap then exec + 1 else exec),
      fr @ map Free (takeWhile (cancellable cb arg) l))"
proof (induction l arbitrary: count fr)
  case Nil
  show ?case by simp
next
  case (Cons ap rest)
  show ?case
    by (simp add: Cons.IH cancellable_code busy_other_code busy_self_code)
qed

lemma cancel_head_leaves:
  "fst (cancel_head cb arg self l (count, err, exec, fr)) = [] \<or>
   \<not> cancellable cb arg (hd (fst (cancel_head cb arg self l (count, err, exec, fr))))"
  unfolding cancel_head_eq fst_conv
  by (metis hd_dropWhile)

lemma filter_dropWhile_not: "filter (\<lambda>x. \<not> P x) (dropWhile P l) = filter (\<lambda>x. \<not> P x) l"
  by (induction l) auto

lemma filter_split_takeWhile: "takeWhile P l @ filter P (dropWhile P l) = filter P l"
  by (induction l) auto

lemma Bex_dropWhile:
  "(\<And>x. Q x \<Longrightarrow> \<not> P x) \<Longrightarrow> (\<exists>x\<in>set (dropWhile P l). Q x) \<longleftrightarrow> (\<exists>x\<in>set l. Q x)"
  by (induction l) auto

lemma busy_self_not_cancellable: "busy_self cb arg self ap \<Longrightarrow> \<not> cancellable cb arg ap"
  by (simp add: busy_self_code cancellable_code)

lemma busy_other_not_cancellable: "busy_other cb arg self ap \<Longrightarrow> \<not> cancellable cb arg ap"
  by (simp add: busy_other_code cancellable_code)

lemma cancel_pass_eq:
  "\<exists>exec. cancel_pass cb arg self l count err =
     (filter (\<lambda>ap. \<not> cancellable cb arg ap) l,
      count + int (length (filter (cancellable cb arg) l)),
      (if \<exists>ap\<in>set l. busy_self cb arg self ap then EINPROGRESS else err),
      exec,
      map Free (filter (cancellable cb arg) l)) \<and>
     (exec \<noteq> 0 \<longleftrightarrow> (\<exists>ap\<in>set l. busy_other cb arg self ap))"
proof -
  let ?c = "cancellable cb arg"
  let ?d = "dropWhile ?c l"
  let ?e0 = "case ?d of [] \<Rightarrow> 0 | ap # _ \<Rightarrow> if busy_other cb arg self ap then 0 + 1 else (0::int)"
  let ?exec = "?e0 + int (length (filter (busy_other cb arg self) ?d))"
  let ?err0 = "case ?d of [] \<Rightarrow> err
       | ap # _ \<Rightarrow> if busy_self cb arg self ap then EINPROGRESS else err"
  have p: "cancel_pass cb arg self l count err =
     (filter (\<lambda>ap. \<not> ?c ap) ?d,
      count + int (length (takeWhile ?c l)) + int (length (filter ?c ?d)),
      (if \<exists>ap\<in>set ?d. busy_self cb arg self ap then EINPROGRESS else ?err0),
      ?exec,
      map Free (takeWhile ?c l) @ map Free (filter ?c ?d))"
    by (simp add: cancel_pass_def cancel_head_eq cancel_sweep_eq)
  have len: "int (length (takeWhile ?c l)) + int (length (filter ?c ?d)) = int (length (filter ?c l))"
    using arg_cong [OF filter_split_takeWhile [of ?c l], of length] by simp
  have fr: "map Free (takeWhile ?c l) @ map Free (filter ?c ?d) = map Free (filter ?c l)"
    using arg_cong [OF filter_split_takeWhile [of ?c l], of "map Free"] by simp
  have bs: "(\<exists>ap\<in>set ?d. busy_self cb arg self ap) \<longleftrightarrow> (\<exists>ap\<in>set l. busy_self cb arg self ap)"
    by (rule Bex_dropWhile) (rule busy_self_not_cancellable)
  have bo: "(\<exists>ap\<in>set ?d. busy_other cb arg self ap) \<longleftrightarrow> (\<exists>ap\<in>set l. busy_other cb arg self ap)"
    by (rule Bex_dropWhile) (rule busy_other_not_cancellable)
  have err: "(if \<exists>ap\<in>set ?d. busy_self cb arg self ap then EINPROGRESS else ?err0) =
      (if \<exists>ap\<in>set l. busy_self cb arg self ap then EINPROGRESS else err)"
  proof -
    have "(if \<exists>ap\<in>set d. busy_self cb arg self ap then EINPROGRESS
           else case d of [] \<Rightarrow> err
                | ap # _ \<Rightarrow> if busy_self cb arg self ap then EINPROGRESS else err) =
      (if \<exists>ap\<in>set d. busy_self cb arg self ap then EINPROGRESS else err)" for d
      by (cases d) auto
    from this [of ?d] show ?thesis by (simp only: bs)
  qed
  have "0 \<le> (case d of [] \<Rightarrow> 0 | ap # _ \<Rightarrow> if busy_other cb arg self ap then 0 + 1 else (0::int)) \<and>
        ((case d of [] \<Rightarrow> 0 | ap # _ \<Rightarrow> if busy_other cb arg self ap then 0 + 1 else (0::int)) \<noteq> 0
           \<longrightarrow> (\<exists>ap\<in>set d. busy_other cb arg self ap))" for d
    by (cases d) auto
  then have e0: "0 \<le> ?e0" "?e0 \<noteq> 0 \<longrightarrow> (\<exists>ap\<in>set ?d. busy_other cb arg self ap)"
    by blast+
  have "?exec \<noteq> 0 \<longleftrightarrow> (\<exists>ap\<in>set ?d. busy_other cb arg self ap)"
  proof
    assume "?exec \<noteq> 0"
    then have "?e0 \<noteq> 0 \<or> filter (busy_other cb arg self) ?d \<noteq> []" by auto
    then show "\<exists>ap\<in>set ?d. busy_other cb arg self ap"
      using e0(2) by (auto simp: filter_empty_conv)
  next
    assume "\<exists>ap\<in>set ?d. busy_other cb arg self ap"
    then have "filter (busy_other cb arg self) ?d \<noteq> []"
      by (simp add: filter_empty_conv)
    then have "0 < int (length (filter (busy_other cb arg self) ?d))" by simp
    with e0(1) show "?exec \<noteq> 0" by linarith
  qed
  then have ex: "?exec \<noteq> 0 \<longleftrightarrow> (\<exists>ap\<in>set l. busy_other cb arg self ap)"
    unfolding bo .
  have "cancel_pass cb arg self l count err =
     (filter (\<lambda>ap. \<not> ?c ap) l,
      count + int (length (filter ?c l)),
      (if \<exists>ap\<in>set l. busy_self cb arg self ap then EINPROGRESS else err),
      ?exec,
      map Free (filter ?c l))"
    unfolding p err fr filter_dropWhile_not using len by simp
  with ex show ?thesis by blast
qed

lemma ex_le_Suc: "(\<exists>i\<le>Suc n. P i) \<longleftrightarrow> P 0 \<or> (\<exists>i\<le>n. P (Suc i))"
  by (metis Suc_le_mono le0 not0_implies_Suc)

lemma upt_Suc_shift: "map f [0..<Suc (Suc n)] = f 0 # map (\<lambda>i. f (Suc i)) [0..<Suc n]"
  by (simp only: upt_conv_Cons [of 0 "Suc (Suc n)"] map_Suc_upt [symmetric] list.map map_map o_def zero_less_Suc if_True)

lemma cancel_loop_stop:
  assumes "\<not> (\<exists>ap\<in>set (alarm_list s). busy_other cb arg self ap)"
  shows "cancel_loop other k cb arg self s count err =
     Some (s\<lparr>alarm_list := filter (\<lambda>ap. \<not> cancellable cb arg ap) (alarm_list s),
             trace := trace s @ Lock # map Free (filter (cancellable cb arg) (alarm_list s)) @ [Unlock]\<rparr>,
           count + int (length (filter (cancellable cb arg) (alarm_list s))),
           (if \<exists>ap\<in>set (alarm_list s). busy_self cb arg self ap then EINPROGRESS else err))"
proof -
  obtain exec where
    p: "cancel_pass cb arg self (alarm_list s) count err =
     (filter (\<lambda>ap. \<not> cancellable cb arg ap) (alarm_list s),
      count + int (length (filter (cancellable cb arg) (alarm_list s))),
      (if \<exists>ap\<in>set (alarm_list s). busy_self cb arg self ap then EINPROGRESS else err),
      exec,
      map Free (filter (cancellable cb arg) (alarm_list s)))"
    and e: "exec \<noteq> 0 \<longleftrightarrow> (\<exists>ap\<in>set (alarm_list s). busy_other cb arg self ap)"
    using cancel_pass_eq by blast
  from e assms have "exec = 0" by blast
  then show ?thesis
    by (subst cancel_loop.simps) (simp add: p)
qed

lemma cancel_loop_again:
  assumes "\<exists>ap\<in>set (alarm_list s). busy_other cb arg self ap"
  shows "cancel_loop other k cb arg self s count err =
     cancel_loop other (Suc k) cb arg self
       (s\<lparr>alarm_list := other k (filter (\<lambda>ap. \<not> cancellable cb arg ap) (alarm_list s)),
          trace := trace s @ Lock # map Free (filter (cancellable cb arg) (alarm_list s)) @ [Unlock]\<rparr>)
       (count + int (length (filter (cancellable cb arg) (alarm_list s))))
       (if \<exists>ap\<in>set (alarm_list s). busy_self cb arg self ap then EINPROGRESS else err)"
proof -
  obtain exec where
    p: "cancel_pass cb arg self (alarm_list s) count err =
     (filter (\<lambda>ap. \<not> cancellable cb arg ap) (alarm_list s),
      count + int (length (filter (cancellable cb arg) (alarm_list s))),
      (if \<exists>ap\<in>set (alarm_list s). busy_self cb arg self ap then EINPROGRESS else err),
      exec,
      map Free (filter (cancellable cb arg) (alarm_list s)))"
    and e: "exec \<noteq> 0 \<longleftrightarrow> (\<exists>ap\<in>set (alarm_list s). busy_other cb arg self ap)"
    using cancel_pass_eq by blast
  from e assms have "exec \<noteq> 0" by blast
  then show ?thesis
    by (subst cancel_loop.simps) (simp add: p)
qed

lemma cancel_loop_run:
  assumes "\<forall>i<n. \<exists>ap\<in>set (seen other k cb arg i (alarm_list s)). busy_other cb arg self ap"
    and "\<not> (\<exists>ap\<in>set (seen other k cb arg n (alarm_list s)). busy_other cb arg self ap)"
  shows "cancel_loop other k cb arg self s count err =
     Some (s\<lparr>alarm_list :=
               filter (\<lambda>ap. \<not> cancellable cb arg ap) (seen other k cb arg n (alarm_list s)),
             trace := trace s @ concat (map (\<lambda>i. Lock #
               map Free (filter (cancellable cb arg) (seen other k cb arg i (alarm_list s))) @
               [Unlock]) [0..<Suc n])\<rparr>,
           count + int (length (concat (map (\<lambda>i.
               filter (cancellable cb arg) (seen other k cb arg i (alarm_list s))) [0..<Suc n]))),
           (if \<exists>i\<le>n. \<exists>ap\<in>set (seen other k cb arg i (alarm_list s)). busy_self cb arg self ap
            then EINPROGRESS else err))"
  using assms
proof (induction n arbitrary: k s count err)
  case 0
  then show ?case
    by (simp add: cancel_loop_stop)
next
  case (Suc n)
  let ?l = "alarm_list s"
  let ?s = "s\<lparr>alarm_list := other k (filter (\<lambda>ap. \<not> cancellable cb arg ap) ?l),
          trace := trace s @ Lock # map Free (filter (cancellable cb arg) ?l) @ [Unlock]\<rparr>"
  from Suc.prems(1) have b0: "\<exists>ap\<in>set ?l. busy_other cb arg self ap"
    by (metis seen.simps(1) zero_less_Suc)
  have sh: "seen other (Suc k) cb arg i (alarm_list ?s) = seen other k cb arg (Suc i) ?l" for i
    by simp
  have 1: "\<forall>i<n. \<exists>ap\<in>set (seen other (Suc k) cb arg i (alarm_list ?s)). busy_other cb arg self ap"
    using Suc.prems(1) unfolding sh by (metis Suc_less_eq)
  have 2: "\<not> (\<exists>ap\<in>set (seen other (Suc k) cb arg n (alarm_list ?s)). busy_other cb arg self ap)"
    using Suc.prems(2) unfolding sh .
  have 3: "(if \<exists>i\<le>n. \<exists>ap\<in>set (seen other k cb arg (Suc i) ?l). busy_self cb arg self ap
            then EINPROGRESS
            else if \<exists>ap\<in>set ?l. busy_self cb arg self ap then EINPROGRESS else err) =
           (if \<exists>i\<le>Suc n. \<exists>ap\<in>set (seen other k cb arg i ?l). busy_self cb arg self ap
            then EINPROGRESS else err)"
    unfolding ex_le_Suc [of n] by (auto simp del: seen.simps(2))
  show ?case
    apply (subst cancel_loop_again [OF b0])
    apply (subst Suc.IH [OF 1 2])
    apply (simp only: sh upt_Suc_shift 3)
    apply (simp del: upt_Suc seen.simps(2))
    done
qed

lemma EINPROGRESS_nonzero: "EINPROGRESS \<noteq> 0"
  by (simp add: EINPROGRESS_def)

lemma cancel_run:
  assumes "cb \<noteq> 0"
    and "\<forall>i<n. \<exists>ap\<in>set (seen other 0 cb arg i (alarm_list s)). busy_other cb arg self ap"
    and "\<not> (\<exists>ap\<in>set (seen other 0 cb arg n (alarm_list s)). busy_other cb arg self ap)"
  shows "\<exists>s'. rte_eal_alarm_cancel other cb arg self s =
           Some (int (length (concat (map (\<lambda>i.
                   filter (cancellable cb arg) (seen other 0 cb arg i (alarm_list s)))
                   [0..<Suc n]))), s') \<and>
         alarm_list s' =
           filter (\<lambda>ap. \<not> cancellable cb arg ap) (seen other 0 cb arg n (alarm_list s)) \<and>
         trace s' = trace s @ concat (map (\<lambda>i. Lock #
               map Free (filter (cancellable cb arg) (seen other 0 cb arg i (alarm_list s))) @
               [Unlock]) [0..<Suc n]) \<and>
         handler_registered s' = handler_registered s \<and>
         rte_errno s' =
           (if \<exists>i\<le>n. \<exists>ap\<in>set (seen other 0 cb arg i (alarm_list s)). busy_self cb arg self ap
            then EINPROGRESS
            else if concat (map (\<lambda>i.
                   filter (cancellable cb arg) (seen other 0 cb arg i (alarm_list s)))
                   [0..<Suc n]) = [] then ENOENT
            else rte_errno s)"
  unfolding rte_eal_alarm_cancel_def cancel_loop_run [OF assms(2,3)]
  using assms(1) EINPROGRESS_nonzero by (auto simp del: upt_Suc)

subsection \<open>The dispatch loop\<close>

lemma found_shift:
  "found during self k (Suc j) l =
     found during self (Suc k) j
       (filter (\<lambda>e. addr e \<noteq> addr (hd l))
          (during k ((hd l)\<lparr>executing := 1, executing_id := self\<rparr> # tl l)))"
proof (induction j)
  case 0
  show ?case by simp
next
  case (Suc j)
  show ?case
    unfolding found.simps(2) [of during self k "Suc j"] Suc.IH by simp
qed

lemma dispatch_loop_stop:
  assumes "l = [] \<or> clock k = None \<or> (\<exists>t. clock k = Some t \<and> \<not> alarm_due (hd l) t)"
  shows "\<exists>now'. dispatch_loop clock during self k now l tr = Some (l, now', tr) \<and>
           (l \<noteq> [] \<longrightarrow> (\<forall>t. clock k = Some t \<longrightarrow> now' = t))"
proof (cases l)
  case Nil
  then show ?thesis
    by (subst dispatch_loop.simps) simp
next
  case (Cons ap rest)
  show ?thesis
  proof (cases "clock k")
    case None
    with Cons show ?thesis
      by (subst dispatch_loop.simps) simp
  next
    case (Some t)
    with Cons assms have "\<not> alarm_due ap t" by simp
    with Cons Some show ?thesis
      by (subst dispatch_loop.simps) simp
  qed
qed

lemma dispatch_loop_again:
  assumes "l \<noteq> []" and "clock k = Some t" and "alarm_due (hd l) t"
  shows "dispatch_loop clock during self k now l tr =
     dispatch_loop clock during self (Suc k) t
       (filter (\<lambda>e. addr e \<noteq> addr (hd l))
          (during k ((hd l)\<lparr>executing := 1, executing_id := self\<rparr> # tl l)))
       (tr @ [Unlock, Call ((hd l)\<lparr>executing := 1, executing_id := self\<rparr>), Lock,
              Free ((hd l)\<lparr>executing := 1, executing_id := self\<rparr>)])"
proof (cases l)
  case Nil
  with assms(1) show ?thesis by simp
next
  case (Cons ap rest)
  with assms(2,3) show ?thesis
    by (subst dispatch_loop.simps) (simp add: Let_def list_remove_def)
qed

lemma map_upt_Suc_shift: "map f [0..<Suc n] = f 0 # map (\<lambda>i. f (Suc i)) [0..<n]"
  by (simp only: upt_conv_Cons [of 0 "Suc n"] map_Suc_upt [symmetric] list.map map_map o_def
      zero_less_Suc if_True)

lemma dispatch_loop_run:
  assumes "\<forall>i<n. found during self k i l \<noteq> [] \<and>
             (\<exists>t. clock (k + i) = Some t \<and> alarm_due (hd (found during self k i l)) t)"
    and "found during self k n l = [] \<or> clock (k + n) = None \<or>
         (\<exists>t. clock (k + n) = Some t \<and> \<not> alarm_due (hd (found during self k n l)) t)"
  shows "\<exists>now'. dispatch_loop clock during self k now l tr =
           Some (found during self k n l, now',
                 tr @ concat (map (\<lambda>i.
                   [Unlock,
                    Call ((hd (found during self k i l))\<lparr>executing := 1, executing_id := self\<rparr>),
                    Lock,
                    Free ((hd (found during self k i l))\<lparr>executing := 1, executing_id := self\<rparr>)])
                   [0..<n])) \<and>
           (found during self k n l \<noteq> [] \<longrightarrow> (\<forall>t. clock (k + n) = Some t \<longrightarrow> now' = t))"
  using assms
proof (induction n arbitrary: k now l tr)
  case 0
  then show ?case
    using dispatch_loop_stop [of l clock k during self now tr] by simp
next
  case (Suc n)
  let ?l = "filter (\<lambda>e. addr e \<noteq> addr (hd l))
          (during k ((hd l)\<lparr>executing := 1, executing_id := self\<rparr> # tl l))"
  let ?tr = "tr @ [Unlock, Call ((hd l)\<lparr>executing := 1, executing_id := self\<rparr>), Lock,
              Free ((hd l)\<lparr>executing := 1, executing_id := self\<rparr>)]"
  from Suc.prems(1) [rule_format, of 0] obtain t
    where h: "l \<noteq> []" "clock k = Some t" "alarm_due (hd l) t"
    by auto
  have sh: "found during self k (Suc i) l = found during self (Suc k) i ?l" for i
    by (rule found_shift)
  have 1: "\<forall>i<n. found during self (Suc k) i ?l \<noteq> [] \<and>
             (\<exists>t. clock (Suc k + i) = Some t \<and> alarm_due (hd (found during self (Suc k) i ?l)) t)"
  proof (intro allI impI)
    fix i assume "i < n"
    then have "Suc i < Suc n" by simp
    from Suc.prems(1) [rule_format, OF this] show
      "found during self (Suc k) i ?l \<noteq> [] \<and>
       (\<exists>t. clock (Suc k + i) = Some t \<and> alarm_due (hd (found during self (Suc k) i ?l)) t)"
      unfolding sh by simp
  qed
  have 2: "found during self (Suc k) n ?l = [] \<or> clock (Suc k + n) = None \<or>
         (\<exists>t. clock (Suc k + n) = Some t \<and>
              \<not> alarm_due (hd (found during self (Suc k) n ?l)) t)"
    using Suc.prems(2) unfolding sh by simp
  from Suc.IH [OF 1 2, of t ?tr] obtain now' where
    r: "dispatch_loop clock during self (Suc k) t ?l ?tr =
           Some (found during self (Suc k) n ?l, now',
                 ?tr @ concat (map (\<lambda>i.
                   [Unlock,
                    Call ((hd (found during self (Suc k) i ?l))\<lparr>executing := 1, executing_id := self\<rparr>),
                    Lock,
                    Free ((hd (found during self (Suc k) i ?l))\<lparr>executing := 1, executing_id := self\<rparr>)])
                   [0..<n]))"
    and e: "found during self (Suc k) n ?l \<noteq> [] \<longrightarrow>
              (\<forall>t. clock (Suc k + n) = Some t \<longrightarrow> now' = t)"
    by blast
  have eq: "dispatch_loop clock during self k now l tr =
      dispatch_loop clock during self (Suc k) t ?l ?tr"
    by (rule dispatch_loop_again [where clock = clock and k = k and t = t, OF h])
  have tr: "?tr @ concat (map (\<lambda>i.
                   [Unlock,
                    Call ((hd (found during self (Suc k) i ?l))\<lparr>executing := 1, executing_id := self\<rparr>),
                    Lock,
                    Free ((hd (found during self (Suc k) i ?l))\<lparr>executing := 1, executing_id := self\<rparr>)])
                   [0..<n]) =
      tr @ concat (map (\<lambda>i.
                   [Unlock,
                    Call ((hd (found during self k i l))\<lparr>executing := 1, executing_id := self\<rparr>),
                    Lock,
                    Free ((hd (found during self k i l))\<lparr>executing := 1, executing_id := self\<rparr>)])
                   [0..<Suc n])"
    unfolding map_upt_Suc_shift sh by simp
  have "dispatch_loop clock during self k now l tr =
           Some (found during self k (Suc n) l, now',
                 tr @ concat (map (\<lambda>i.
                   [Unlock,
                    Call ((hd (found during self k i l))\<lparr>executing := 1, executing_id := self\<rparr>),
                    Lock,
                    Free ((hd (found during self k i l))\<lparr>executing := 1, executing_id := self\<rparr>)])
                   [0..<Suc n]))"
    unfolding eq r tr sh ..
  moreover have "found during self k (Suc n) l \<noteq> [] \<longrightarrow>
      (\<forall>t. clock (k + Suc n) = Some t \<longrightarrow> now' = t)"
    using e unfolding sh by simp
  ultimately show ?case by blast
qed

lemma dispatch_loop_shape:
  assumes "dispatch_loop clock during self k now l tr = Some y"
  shows "\<exists>n. (\<forall>i<n. found during self k i l \<noteq> [] \<and>
                 (\<exists>t. clock (k + i) = Some t \<and> alarm_due (hd (found during self k i l)) t)) \<and>
              (found during self k n l = [] \<or> clock (k + n) = None \<or>
               (\<exists>t. clock (k + n) = Some t \<and> \<not> alarm_due (hd (found during self k n l)) t))"
proof -
  let ?P = "\<lambda>(clock :: nat \<Rightarrow> timespec option) during self k (now :: timespec) l
      (tr :: event list) (y :: alarm_entry list \<times> timespec \<times> event list).
    \<exists>n. (\<forall>i<n. found during self k i l \<noteq> [] \<and>
                 (\<exists>t. clock (k + i) = Some t \<and> alarm_due (hd (found during self k i l)) t)) \<and>
              (found during self k n l = [] \<or> clock (k + n) = None \<or>
               (\<exists>t. clock (k + n) = Some t \<and> \<not> alarm_due (hd (found during self k n l)) t))"
  have "?P clock during self k now l tr y"
  proof (rule dispatch_loop.raw_induct [where P = ?P, OF _ assms], goal_cases)
    case (1 f clock during self k now l tr y)
    show ?case
    proof (cases "l = [] \<or> clock k = None \<or> (\<exists>t. clock k = Some t \<and> \<not> alarm_due (hd l) t)")
      case True
      then show ?thesis
        by (intro exI [of _ 0]) simp
    next
      case False
      then obtain t where h: "l \<noteq> []" "clock k = Some t" "alarm_due (hd l) t"
        by auto
      let ?l = "filter (\<lambda>e. addr e \<noteq> addr (hd l))
          (during k ((hd l)\<lparr>executing := 1, executing_id := self\<rparr> # tl l))"
      from h obtain ap rest where l: "l = ap # rest" by (cases l) auto
      from 1(2) h l have "f clock during self (Suc k) t ?l
        (tr @ [Unlock, Call (ap\<lparr>executing := 1, executing_id := self\<rparr>), Lock,
               Free (ap\<lparr>executing := 1, executing_id := self\<rparr>)]) = Some y"
        by (simp add: Let_def list_remove_def)
      from 1(1) [OF this] obtain n where
        a: "\<forall>i<n. found during self (Suc k) i ?l \<noteq> [] \<and>
                 (\<exists>t. clock (Suc k + i) = Some t \<and>
                      alarm_due (hd (found during self (Suc k) i ?l)) t)"
        and b: "found during self (Suc k) n ?l = [] \<or> clock (Suc k + n) = None \<or>
               (\<exists>t. clock (Suc k + n) = Some t \<and>
                    \<not> alarm_due (hd (found during self (Suc k) n ?l)) t)"
        by blast
      have sh: "found during self k (Suc i) l = found during self (Suc k) i ?l" for i
        by (rule found_shift)
      have a': "found during self k i l \<noteq> [] \<and>
                 (\<exists>t. clock (k + i) = Some t \<and> alarm_due (hd (found during self k i l)) t)"
        if "i < Suc n" for i
      proof (cases i)
        case 0
        with h show ?thesis by simp
      next
        case (Suc j)
        with that have "j < n" by simp
        from a [rule_format, OF this] show ?thesis
          unfolding Suc sh by simp
      qed
      have b': "found during self k (Suc n) l = [] \<or> clock (k + Suc n) = None \<or>
               (\<exists>t. clock (k + Suc n) = Some t \<and>
                    \<not> alarm_due (hd (found during self k (Suc n) l)) t)"
        using b unfolding sh by simp
      from a' b' show ?thesis
        by (intro exI [of _ "Suc n"]) blast
    qed
  qed
  then show ?thesis .
qed

lemma alarm_due_ns:
  assumes "0 \<le> sint (tv_usec (time ap))" "sint (tv_usec (time ap)) < 1000000"
    and "0 \<le> sint (tv_nsec now)" "sint (tv_nsec now) < 1000000000"
  shows "alarm_due ap now \<longleftrightarrow> deadline_ns ap \<le> clock_ns now"
  unfolding deadline_ns_def clock_ns_def by (rule alarm_due_iff [OF assms])

lemma eal_alarm_callback_run:
  assumes "\<forall>i<n. found during self 0 i (alarm_list s) \<noteq> [] \<and>
             (\<exists>t. clock i = Some t \<and> alarm_due (hd (found during self 0 i (alarm_list s))) t)"
    and "found during self 0 n (alarm_list s) = [] \<or> clock n = None \<or>
         (\<exists>t. clock n = Some t \<and> \<not> alarm_due (hd (found during self 0 n (alarm_list s))) t)"
  shows "\<exists>now'. eal_alarm_callback clock during self now0 s =
           Some (s\<lparr>alarm_list := found during self 0 n (alarm_list s),
                   trace := trace s @ Lock # concat (map (\<lambda>i.
                     [Unlock,
                      Call ((hd (found during self 0 i (alarm_list s)))
                              \<lparr>executing := 1, executing_id := self\<rparr>),
                      Lock,
                      Free ((hd (found during self 0 i (alarm_list s)))
                              \<lparr>executing := 1, executing_id := self\<rparr>)])
                     [0..<n]) @
                     (if found during self 0 n (alarm_list s) \<noteq> []
                      then [Settime (rearm now' (hd (found during self 0 n (alarm_list s))))]
                      else []) @ [Unlock]\<rparr>) \<and>
           (found during self 0 n (alarm_list s) \<noteq> [] \<longrightarrow>
              (\<forall>t. clock n = Some t \<longrightarrow> now' = t))"
proof -
  have 1: "\<forall>i<n. found during self 0 i (alarm_list s) \<noteq> [] \<and>
             (\<exists>t. clock (0 + i) = Some t \<and>
                  alarm_due (hd (found during self 0 i (alarm_list s))) t)"
    using assms(1) by simp
  have 2: "found during self 0 n (alarm_list s) = [] \<or> clock (0 + n) = None \<or>
         (\<exists>t. clock (0 + n) = Some t \<and>
              \<not> alarm_due (hd (found during self 0 n (alarm_list s))) t)"
    using assms(2) by simp
  from dispatch_loop_run [OF 1 2, of now0 "trace s @ [Lock]"] obtain now' where
    r: "dispatch_loop clock during self 0 now0 (alarm_list s) (trace s @ [Lock]) =
           Some (found during self 0 n (alarm_list s), now',
                 (trace s @ [Lock]) @ concat (map (\<lambda>i.
                   [Unlock,
                    Call ((hd (found during self 0 i (alarm_list s)))
                            \<lparr>executing := 1, executing_id := self\<rparr>),
                    Lock,
                    Free ((hd (found during self 0 i (alarm_list s)))
                            \<lparr>executing := 1, executing_id := self\<rparr>)])
                   [0..<n]))"
    and e: "found during self 0 n (alarm_list s) \<noteq> [] \<longrightarrow>
              (\<forall>t. clock (0 + n) = Some t \<longrightarrow> now' = t)"
    by blast
  show ?thesis
    apply (rule exI [of _ now'])
    unfolding eal_alarm_callback_def r
    using e by simp
qed

lemma eal_alarm_callback_shape:
  assumes "eal_alarm_callback clock during self now0 s = Some s'"
  shows "\<exists>n. (\<forall>i<n. found during self 0 i (alarm_list s) \<noteq> [] \<and>
             (\<exists>t. clock i = Some t \<and>
                  alarm_due (hd (found during self 0 i (alarm_list s))) t)) \<and>
           (found during self 0 n (alarm_list s) = [] \<or> clock n = None \<or>
            (\<exists>t. clock n = Some t \<and>
                 \<not> alarm_due (hd (found during self 0 n (alarm_list s))) t))"
proof -
  from assms obtain y where
    "dispatch_loop clock during self 0 now0 (alarm_list s) (trace s @ [Lock]) = Some y"
    by (auto simp: eal_alarm_callback_def split: option.splits)
  from dispatch_loop_shape [OF this] show ?thesis by simp
qed

lemma calls_append: "calls (tr1 @ tr2) = calls tr1 @ calls tr2"
  by (induction tr1 rule: calls.induct) simp_all

lemma calls_dispatches:
  "calls (concat (map (\<lambda>i. [Unlock, Call (f i), Lock, Free (f i)]) xs)) = map f xs"
  by (induction xs) simp_all

lemma dispatch_heads:
  assumes "\<forall>i\<le>n. \<forall>t. clock i = Some t \<longrightarrow>
             0 \<le> sint (tv_nsec t) \<and> sint (tv_nsec t) < 1000000000"
    and "\<forall>i\<le>n. found during self 0 i (alarm_list s) \<noteq> [] \<longrightarrow>
           0 \<le> sint (tv_usec (time (hd (found during self 0 i (alarm_list s))))) \<and>
           sint (tv_usec (time (hd (found during self 0 i (alarm_list s))))) < 1000000"
    and "\<forall>i<n. found during self 0 i (alarm_list s) \<noteq> [] \<and>
           (\<exists>t. clock i = Some t \<and>
                deadline_ns (hd (found during self 0 i (alarm_list s))) \<le> clock_ns t)"
    and "found during self 0 n (alarm_list s) = [] \<or> clock n = None \<or>
         (\<exists>t. clock n = Some t \<and>
              clock_ns t < deadline_ns (hd (found during self 0 n (alarm_list s))))"
  shows "\<exists>s' w. eal_alarm_callback clock during self now0 s = Some s' \<and>
           alarm_list s' = found during self 0 n (alarm_list s) \<and>
           trace s' = trace s @ Lock # concat (map (\<lambda>i.
               [Unlock,
                Call ((hd (found during self 0 i (alarm_list s)))
                        \<lparr>executing := 1, executing_id := self\<rparr>),
                Lock,
                Free ((hd (found during self 0 i (alarm_list s)))
                        \<lparr>executing := 1, executing_id := self\<rparr>)])
               [0..<n]) @ w @ [Unlock] \<and>
           (if found during self 0 n (alarm_list s) = [] then w = []
            else \<exists>iv. w = [Settime iv]) \<and>
           ((\<forall>i<n. \<exists>rest.
                during i ((hd (found during self 0 i (alarm_list s)))
                            \<lparr>executing := 1, executing_id := self\<rparr> #
                          tl (found during self 0 i (alarm_list s))) =
                  (hd (found during self 0 i (alarm_list s)))
                    \<lparr>executing := 1, executing_id := self\<rparr> # rest \<and>
                sorted_wrt (\<lambda>a b. deadline_ns a \<le> deadline_ns b)
                  ((hd (found during self 0 i (alarm_list s)))
                     \<lparr>executing := 1, executing_id := self\<rparr> # rest)) \<longrightarrow>
            (\<forall>i. Suc i < n \<longrightarrow>
               deadline_ns (hd (found during self 0 i (alarm_list s))) \<le>
               deadline_ns (hd (found during self 0 (Suc i) (alarm_list s)))))"
proof -
  let ?F = "\<lambda>i. found during self 0 i (alarm_list s)"
  let ?M = "\<lambda>i. (hd (?F i))\<lparr>executing := 1, executing_id := self\<rparr>"
  have a: "\<forall>i<n. ?F i \<noteq> [] \<and> (\<exists>t. clock i = Some t \<and> alarm_due (hd (?F i)) t)"
  proof (intro allI impI)
    fix i assume i: "i < n"
    with assms(3) obtain t where ne: "?F i \<noteq> []" and t: "clock i = Some t"
      and d: "deadline_ns (hd (?F i)) \<le> clock_ns t"
      by blast
    from i have "i \<le> n" by simp
    with assms(1) t have wt: "0 \<le> sint (tv_nsec t)" "sint (tv_nsec t) < 1000000000"
      by blast+
    from \<open>i \<le> n\<close> assms(2) ne have we: "0 \<le> sint (tv_usec (time (hd (?F i))))"
      "sint (tv_usec (time (hd (?F i)))) < 1000000"
      by blast+
    from d have "alarm_due (hd (?F i)) t"
      by (simp add: alarm_due_ns [OF we wt])
    with ne t show "?F i \<noteq> [] \<and> (\<exists>t. clock i = Some t \<and> alarm_due (hd (?F i)) t)"
      by blast
  qed
  have b: "?F n = [] \<or> clock n = None \<or>
            (\<exists>t. clock n = Some t \<and> \<not> alarm_due (hd (?F n)) t)"
  proof (cases "?F n = [] \<or> clock n = None")
    case True
    then show ?thesis by blast
  next
    case False
    with assms(4) obtain t where t: "clock n = Some t"
      and d: "clock_ns t < deadline_ns (hd (?F n))"
      by blast
    from assms(1) t have wt: "0 \<le> sint (tv_nsec t)" "sint (tv_nsec t) < 1000000000"
      by blast+
    from assms(2) False have we: "0 \<le> sint (tv_usec (time (hd (?F n))))"
      "sint (tv_usec (time (hd (?F n)))) < 1000000"
      by blast+
    from d have "\<not> alarm_due (hd (?F n)) t"
      by (simp add: alarm_due_ns [OF we wt])
    with t show ?thesis by blast
  qed
  from eal_alarm_callback_run [OF a b, of now0] obtain now' where
    r: "eal_alarm_callback clock during self now0 s =
           Some (s\<lparr>alarm_list := ?F n,
                   trace := trace s @ Lock # concat (map (\<lambda>i.
                     [Unlock, Call (?M i), Lock, Free (?M i)]) [0..<n]) @
                     (if ?F n \<noteq> [] then [Settime (rearm now' (hd (?F n)))] else []) @
                     [Unlock]\<rparr>)"
    by blast
  have o: "deadline_ns (hd (?F i)) \<le> deadline_ns (hd (?F (Suc i)))"
    if h: "\<forall>i<n. \<exists>rest. during i (?M i # tl (?F i)) = ?M i # rest \<and>
                sorted_wrt (\<lambda>a b. deadline_ns a \<le> deadline_ns b) (?M i # rest)"
      and i: "Suc i < n" for i
  proof -
    from i have "i < n" by simp
    with h obtain rest where d: "during i (?M i # tl (?F i)) = ?M i # rest"
      and so: "sorted_wrt (\<lambda>a b. deadline_ns a \<le> deadline_ns b) (?M i # rest)"
      by blast
    have F: "?F (Suc i) = filter (\<lambda>e. addr e \<noteq> addr (hd (?F i))) rest"
      by (simp add: d)
    from a i have "?F (Suc i) \<noteq> []" by blast
    then have "hd (?F (Suc i)) \<in> set (?F (Suc i))" by (rule hd_in_set)
    then have "hd (?F (Suc i)) \<in> set rest" unfolding F by simp
    with so have "deadline_ns (?M i) \<le> deadline_ns (hd (?F (Suc i)))" by simp
    then show ?thesis by (simp add: deadline_ns_def)
  qed
  show ?thesis
    apply (intro exI [of _ "s\<lparr>alarm_list := ?F n,
                   trace := trace s @ Lock # concat (map (\<lambda>i.
                     [Unlock, Call (?M i), Lock, Free (?M i)]) [0..<n]) @
                     (if ?F n \<noteq> [] then [Settime (rearm now' (hd (?F n)))] else []) @
                     [Unlock]\<rparr>"]
        exI [of _ "if ?F n \<noteq> [] then [Settime (rearm now' (hd (?F n)))] else []"])
    using r o by simp
qed

section \<open>The claims\<close>

text \<open>
  C1. A call of cancel with a non-null callback that removes no entry (count = 0) is
  claimed to return \<open>-1\<close>, with \<open>InProgress\<close> when a matching entry was executing on the
  calling thread and \<open>NotFound\<close> otherwise. The function returns \<open>count\<close>: on the empty
  list the call below returns 0, with \<open>rte_errno = ENOENT\<close>.
\<close>

theorem cancel_empty_returns_zero:
  "rte_eal_alarm_cancel nobody 7 1 9 (engine []) =
     Some (0, \<lparr>alarm_list = [], handler_registered = 0, rte_errno = ENOENT,
               trace = [Lock, Unlock]\<rparr>)"
  by (simp add: rte_eal_alarm_cancel_def engine_def cancel_loop.simps cancel_pass_def)

text \<open>
  C1, as the code has it. A call with a non-null callback whose passes remove no entry
  returns 0, the count; \<open>rte_errno\<close> is \<open>EINPROGRESS\<close> when some pass met a matching entry
  executing on the calling thread, and \<open>ENOENT\<close> otherwise. The call makes \<open>n + 1\<close>
  passes: the first \<open>n\<close> meet a matching entry executing on another thread, the last one
  does not.
\<close>

theorem cancel_nothing_removed:
  assumes "cb \<noteq> 0"
    and "\<forall>i<n. \<exists>ap\<in>set (seen other 0 cb arg i (alarm_list s)). busy_other cb arg self ap"
    and "\<not> (\<exists>ap\<in>set (seen other 0 cb arg n (alarm_list s)). busy_other cb arg self ap)"
    and "\<forall>i\<le>n. \<forall>ap\<in>set (seen other 0 cb arg i (alarm_list s)). \<not> cancellable cb arg ap"
  shows "\<exists>s'. rte_eal_alarm_cancel other cb arg self s = Some (0, s') \<and>
         rte_errno s' =
           (if \<exists>i\<le>n. \<exists>ap\<in>set (seen other 0 cb arg i (alarm_list s)). busy_self cb arg self ap
            then EINPROGRESS else ENOENT)"
proof -
  have "filter (cancellable cb arg) (seen other 0 cb arg i (alarm_list s)) = []" if "i \<le> n" for i
    using assms(4) that by (simp add: filter_empty_conv)
  then have "concat (map (\<lambda>i.
      filter (cancellable cb arg) (seen other 0 cb arg i (alarm_list s))) [0..<Suc n]) = []"
    by (simp del: upt_Suc)
  with cancel_run [OF assms(1-3)] show ?thesis
    by auto
qed

theorem cancel_nothing_removed_witness:
  "(7 :: 64 word) \<noteq> 0 \<and>
   (\<exists>s'. rte_eal_alarm_cancel nobody 7 1 9 (engine [entry 0x1000 5 0 7 1 1 9]) = Some (0, s') \<and>
         rte_errno s' = EINPROGRESS)"
  using cancel_nothing_removed [where cb = 7 and n = 0 and other = nobody and arg = 1
      and s = "engine [entry 0x1000 5 0 7 1 1 9]" and self = 9]
  by (simp add: engine_def entry_def nobody_def busy_other_def busy_self_def
      cancellable_def alarm_match_def pthread_equal_def)

text \<open>
  C2. A call of cancel with a non-null callback removes and frees exactly the entries
  whose callback is the given one, whose argument is the given one (any argument when the
  given one is the wildcard \<open>(void *)-1\<close>) and which are not executing; the count
  returned is the number of entries removed; every other entry stays in the list. Each of
  the \<open>n + 1\<close> passes of the call does so on the list it finds: the \<open>Free\<close> events of the
  trace are those entries of each pass, in list order, the returned count is their number,
  and the final list is what the last pass found without them.
\<close>

theorem cancel_removes_matching_idle:
  assumes "cb \<noteq> 0"
    and "\<forall>i<n. \<exists>ap\<in>set (seen other 0 cb arg i (alarm_list s)). busy_other cb arg self ap"
    and "\<not> (\<exists>ap\<in>set (seen other 0 cb arg n (alarm_list s)). busy_other cb arg self ap)"
  shows "\<exists>s'. rte_eal_alarm_cancel other cb arg self s =
           Some (int (length (concat (map (\<lambda>i.
                   filter (\<lambda>ap. cb_fn ap = cb \<and> (arg = - 1 \<or> cb_arg ap = arg) \<and>
                                 executing ap = 0)
                     (seen other 0 cb arg i (alarm_list s)))
                   [0..<Suc n]))), s') \<and>
         alarm_list s' =
           filter (\<lambda>ap. \<not> (cb_fn ap = cb \<and> (arg = - 1 \<or> cb_arg ap = arg) \<and>
                              executing ap = 0))
             (seen other 0 cb arg n (alarm_list s)) \<and>
         trace s' = trace s @ concat (map (\<lambda>i. Lock #
               map Free
                 (filter (\<lambda>ap. cb_fn ap = cb \<and> (arg = - 1 \<or> cb_arg ap = arg) \<and>
                               executing ap = 0)
                    (seen other 0 cb arg i (alarm_list s))) @
               [Unlock]) [0..<Suc n])"
proof -
  have c: "cancellable cb arg =
      (\<lambda>ap. cb_fn ap = cb \<and> (arg = - 1 \<or> cb_arg ap = arg) \<and> executing ap = 0)"
    by (simp add: fun_eq_iff cancellable_def)
  from cancel_run [OF assms] show ?thesis
    unfolding c by blast
qed

theorem cancel_removes_matching_idle_witness:
  "\<exists>s'. rte_eal_alarm_cancel dispatcher_done 7 1 9
          (engine [entry 0x1000 1 0 7 1 1 5, entry 0x2000 2 0 7 1 0 0,
                   entry 0x3000 3 0 7 2 0 0, entry 0x4000 4 0 8 1 0 0]) =
        Some (1, s') \<and>
        alarm_list s' = [entry 0x3000 3 0 7 2 0 0, entry 0x4000 4 0 8 1 0 0] \<and>
        trace s' = [Lock, Free (entry 0x2000 2 0 7 1 0 0), Unlock, Lock, Unlock]"
  using cancel_removes_matching_idle [where cb = 7 and n = "Suc 0" and other = dispatcher_done
      and arg = 1 and self = 9
      and s = "engine [entry 0x1000 1 0 7 1 1 5, entry 0x2000 2 0 7 1 0 0,
                   entry 0x3000 3 0 7 2 0 0, entry 0x4000 4 0 8 1 0 0]"]
  by (simp add: dispatcher_done_def engine_def entry_def nobody_def busy_other_def busy_self_def
      cancellable_def alarm_match_def pthread_equal_def)

text \<open>
  C3. When the handler returns with a non-empty list, whatever the callbacks and the other
  threads did to the list in between, the last thing it does before releasing the lock is
  to write to the timer the deadline of the head minus the last clock reading, as seconds
  and a nanosecond part in \<open>[0, 10\<^sup>9)\<close>, and that interval is at least one nanosecond:
  never zero, never negative. The head has \<open>0 \<le> tv_usec < 10\<^sup>6\<close>, as every deadline
  stored by \<open>rte_eal_alarm_set\<close>, and \<open>clock_gettime\<close> answers with a \<open>timespec\<close> of the
  monotonic clock: \<open>0 \<le> tv_sec\<close> and \<open>0 \<le> tv_nsec < 10\<^sup>9\<close>. The code has no clamping
  step: the interval is positive because the loop has just found the head not due.
\<close>

theorem dispatch_rearm_interval:
  assumes "eal_alarm_callback clock during self now0 s = Some s'"
    and "alarm_list s' = ap # rest"
    and "\<forall>k. \<exists>t. clock k = Some t \<and> 0 \<le> sint (ts_sec t) \<and>
                0 \<le> sint (tv_nsec t) \<and> sint (tv_nsec t) < 1000000000"
    and "0 \<le> sint (tv_usec (time ap))" and "sint (tv_usec (time ap)) < 1000000"
  shows "\<exists>n t. clock n = Some t \<and>
           found during self 0 n (alarm_list s) = ap # rest \<and>
           trace s' = trace s @ Lock # concat (map (\<lambda>i.
               [Unlock,
                Call ((hd (found during self 0 i (alarm_list s)))
                        \<lparr>executing := 1, executing_id := self\<rparr>),
                Lock,
                Free ((hd (found during self 0 i (alarm_list s)))
                        \<lparr>executing := 1, executing_id := self\<rparr>)])
               [0..<n]) @ [Settime (rearm t ap), Unlock] \<and>
           sint (ts_sec (rearm t ap)) * 1000000000 + sint (tv_nsec (rearm t ap)) =
             (sint (tv_sec (time ap)) * 1000000000 + sint (tv_usec (time ap)) * 1000) -
             (sint (ts_sec t) * 1000000000 + sint (tv_nsec t)) \<and>
           0 \<le> sint (tv_nsec (rearm t ap)) \<and> sint (tv_nsec (rearm t ap)) < 1000000000 \<and>
           0 \<le> sint (ts_sec (rearm t ap)) \<and>
           1 \<le> sint (ts_sec (rearm t ap)) * 1000000000 + sint (tv_nsec (rearm t ap))"
proof -
  let ?F = "\<lambda>i. found during self 0 i (alarm_list s)"
  from eal_alarm_callback_shape [OF assms(1)] obtain n where
    a: "\<forall>i<n. ?F i \<noteq> [] \<and> (\<exists>t. clock i = Some t \<and> alarm_due (hd (?F i)) t)"
    and b: "?F n = [] \<or> clock n = None \<or>
            (\<exists>t. clock n = Some t \<and> \<not> alarm_due (hd (?F n)) t)"
    by blast
  from eal_alarm_callback_run [OF a b, of now0] obtain now' where
    r: "eal_alarm_callback clock during self now0 s =
           Some (s\<lparr>alarm_list := ?F n,
                   trace := trace s @ Lock # concat (map (\<lambda>i.
                     [Unlock,
                      Call ((hd (?F i))\<lparr>executing := 1, executing_id := self\<rparr>),
                      Lock,
                      Free ((hd (?F i))\<lparr>executing := 1, executing_id := self\<rparr>)])
                     [0..<n]) @
                     (if ?F n \<noteq> [] then [Settime (rearm now' (hd (?F n)))] else []) @
                     [Unlock]\<rparr>)"
    and e: "?F n \<noteq> [] \<longrightarrow> (\<forall>t. clock n = Some t \<longrightarrow> now' = t)"
    by blast
  from assms(1) r have s': "s' = s\<lparr>alarm_list := ?F n,
                   trace := trace s @ Lock # concat (map (\<lambda>i.
                     [Unlock,
                      Call ((hd (?F i))\<lparr>executing := 1, executing_id := self\<rparr>),
                      Lock,
                      Free ((hd (?F i))\<lparr>executing := 1, executing_id := self\<rparr>)])
                     [0..<n]) @
                     (if ?F n \<noteq> [] then [Settime (rearm now' (hd (?F n)))] else []) @
                     [Unlock]\<rparr>"
    by simp
  with assms(2) have F: "?F n = ap # rest"
    by simp
  from assms(3) obtain t where t: "clock n = Some t" "0 \<le> sint (ts_sec t)"
      "0 \<le> sint (tv_nsec t)" "sint (tv_nsec t) < 1000000000"
    by blast
  from e F t(1) have now': "now' = t" by simp
  from b F t(1) have nd: "\<not> alarm_due ap t" by simp
  have tr: "trace s' = trace s @ Lock # concat (map (\<lambda>i.
               [Unlock,
                Call ((hd (?F i))\<lparr>executing := 1, executing_id := self\<rparr>),
                Lock,
                Free ((hd (?F i))\<lparr>executing := 1, executing_id := self\<rparr>)])
               [0..<n]) @ [Settime (rearm t ap), Unlock]"
    unfolding s' using F now' by simp
  from rearm_interval [OF assms(4,5) t(3,4,2) nd] tr t(1) F show ?thesis
    by (intro exI [of _ n] exI [of _ t]) simp
qed

theorem dispatch_rearm_interval_witness:
  "eal_alarm_callback (clock_at 6 0) callback_rearms 9 \<lparr>ts_sec = 0, tv_nsec = 0\<rparr>
     (engine [entry 0x1000 5 999999 7 1 0 0]) =
   Some \<lparr>alarm_list = [entry 0x2000 6 500 7 1 0 0], handler_registered = 0, rte_errno = 0,
     trace = [Lock, Unlock, Call (entry 0x1000 5 999999 7 1 1 9), Lock,
              Free (entry 0x1000 5 999999 7 1 1 9),
              Settime \<lparr>ts_sec = 0, tv_nsec = 500000\<rparr>, Unlock]\<rparr> \<and>
   rearm \<lparr>ts_sec = 6, tv_nsec = 0\<rparr> (entry 0x2000 6 500 7 1 0 0) =
     \<lparr>ts_sec = 0, tv_nsec = 500000\<rparr> \<and>
   (1 :: int) \<le> sint (ts_sec (rearm \<lparr>ts_sec = 6, tv_nsec = 0\<rparr> (entry 0x2000 6 500 7 1 0 0))) *
       1000000000 +
     sint (tv_nsec (rearm \<lparr>ts_sec = 6, tv_nsec = 0\<rparr> (entry 0x2000 6 500 7 1 0 0)))"
proof -
  have ev: "eal_alarm_callback (clock_at 6 0) callback_rearms 9 \<lparr>ts_sec = 0, tv_nsec = 0\<rparr>
     (engine [entry 0x1000 5 999999 7 1 0 0]) =
   Some \<lparr>alarm_list = [entry 0x2000 6 500 7 1 0 0], handler_registered = 0, rte_errno = 0,
     trace = [Lock, Unlock, Call (entry 0x1000 5 999999 7 1 1 9), Lock,
              Free (entry 0x1000 5 999999 7 1 1 9),
              Settime \<lparr>ts_sec = 0, tv_nsec = 500000\<rparr>, Unlock]\<rparr>"
    by (simp add: eal_alarm_callback_def dispatch_loop.simps list_remove_def callback_rearms_def
      alarm_due_def rearm_def later_def clock_at_def
      rte_eal_alarm_set_def new_alarm_def sdiv64_def signed_divide_int_def
      UINT64_MAX_def US_PER_S_def US_PER_MS_def MS_PER_S_def NS_PER_US_def
      engine_def entry_def Let_def)
  have l: "alarm_list \<lparr>alarm_list = [entry 0x2000 6 500 7 1 0 0], handler_registered = 0,
      rte_errno = 0,
      trace = [Lock, Unlock, Call (entry 0x1000 5 999999 7 1 1 9), Lock,
              Free (entry 0x1000 5 999999 7 1 1 9),
              Settime \<lparr>ts_sec = 0, tv_nsec = 500000\<rparr>, Unlock]\<rparr> =
      entry 0x2000 6 500 7 1 0 0 # []"
    by simp
  have c: "\<forall>k. \<exists>t. clock_at 6 0 k = Some t \<and> 0 \<le> sint (ts_sec t) \<and>
                0 \<le> sint (tv_nsec t) \<and> sint (tv_nsec t) < 1000000000"
    by (simp add: clock_at_def)
  have u: "0 \<le> sint (tv_usec (time (entry 0x2000 6 500 7 1 0 0)))"
    "sint (tv_usec (time (entry 0x2000 6 500 7 1 0 0))) < 1000000"
    by (simp_all add: entry_def)
  from dispatch_rearm_interval [OF ev l c u] obtain n t where
    t: "clock_at 6 0 n = Some t"
    and p: "1 \<le> sint (ts_sec (rearm t (entry 0x2000 6 500 7 1 0 0))) * 1000000000 +
              sint (tv_nsec (rearm t (entry 0x2000 6 500 7 1 0 0)))"
    by blast
  from t have "t = \<lparr>ts_sec = 6, tv_nsec = 0\<rparr>"
    by (simp add: clock_at_def)
  with p have p': "1 \<le> sint (ts_sec (rearm \<lparr>ts_sec = 6, tv_nsec = 0\<rparr>
        (entry 0x2000 6 500 7 1 0 0))) * 1000000000 +
      sint (tv_nsec (rearm \<lparr>ts_sec = 6, tv_nsec = 0\<rparr> (entry 0x2000 6 500 7 1 0 0)))"
    by simp
  have r: "rearm \<lparr>ts_sec = 6, tv_nsec = 0\<rparr> (entry 0x2000 6 500 7 1 0 0) =
     \<lparr>ts_sec = 0, tv_nsec = 500000\<rparr>"
    by (simp add: rearm_def entry_def US_PER_S_def US_PER_MS_def MS_PER_S_def NS_PER_US_def)
  from ev r p' show ?thesis by blast
qed

text \<open>
  C4. Dispatch pops due entries in head order. When the first \<open>n\<close> tests of the loop each
  find a head whose deadline is not after the clock reading of that test, and test \<open>n\<close>
  finds no head, no clock, or a head whose deadline is after the reading, the handler
  returns after exactly \<open>n\<close> dispatches: for each of those heads it sets \<open>executing = 1\<close>
  and \<open>executing_id\<close> to the dispatch thread, releases the lock, calls the callback of
  the entry, takes the lock again and frees that entry; it takes nothing else out of the
  list, and the head of test \<open>n\<close> is neither called nor removed. Deadlines and readings
  are compared as instants in nanoseconds. When every callback leaves the list sorted by
  deadline with the running entry still at its head, consecutive dispatched alarms have
  non-decreasing deadlines.
\<close>

theorem dispatch_head_order:
  assumes "\<forall>i\<le>n. \<forall>t. clock i = Some t \<longrightarrow>
             0 \<le> sint (tv_nsec t) \<and> sint (tv_nsec t) < 1000000000"
    and "\<forall>i\<le>n. found during self 0 i (alarm_list s) \<noteq> [] \<longrightarrow>
           0 \<le> sint (tv_usec (time (hd (found during self 0 i (alarm_list s))))) \<and>
           sint (tv_usec (time (hd (found during self 0 i (alarm_list s))))) < 1000000"
    and "\<forall>i<n. found during self 0 i (alarm_list s) \<noteq> [] \<and>
           (\<exists>t. clock i = Some t \<and>
                deadline_ns (hd (found during self 0 i (alarm_list s))) \<le> clock_ns t)"
    and "found during self 0 n (alarm_list s) = [] \<or> clock n = None \<or>
         (\<exists>t. clock n = Some t \<and>
              clock_ns t < deadline_ns (hd (found during self 0 n (alarm_list s))))"
  shows "\<exists>s' w. eal_alarm_callback clock during self now0 s = Some s' \<and>
           alarm_list s' = found during self 0 n (alarm_list s) \<and>
           trace s' = trace s @ Lock # concat (map (\<lambda>i.
               [Unlock,
                Call ((hd (found during self 0 i (alarm_list s)))
                        \<lparr>executing := 1, executing_id := self\<rparr>),
                Lock,
                Free ((hd (found during self 0 i (alarm_list s)))
                        \<lparr>executing := 1, executing_id := self\<rparr>)])
               [0..<n]) @ w @ [Unlock] \<and>
           (if found during self 0 n (alarm_list s) = [] then w = []
            else \<exists>iv. w = [Settime iv]) \<and>
           drop (length (calls (trace s))) (calls (trace s')) =
             map (\<lambda>i. (hd (found during self 0 i (alarm_list s)))
                         \<lparr>executing := 1, executing_id := self\<rparr>) [0..<n] \<and>
           ((\<forall>i<n. \<exists>rest.
                during i ((hd (found during self 0 i (alarm_list s)))
                            \<lparr>executing := 1, executing_id := self\<rparr> #
                          tl (found during self 0 i (alarm_list s))) =
                  (hd (found during self 0 i (alarm_list s)))
                    \<lparr>executing := 1, executing_id := self\<rparr> # rest \<and>
                sorted_wrt (\<lambda>a b. deadline_ns a \<le> deadline_ns b)
                  ((hd (found during self 0 i (alarm_list s)))
                     \<lparr>executing := 1, executing_id := self\<rparr> # rest)) \<longrightarrow>
            (\<forall>i. Suc i < n \<longrightarrow>
               deadline_ns (drop (length (calls (trace s))) (calls (trace s')) ! i) \<le>
               deadline_ns (drop (length (calls (trace s))) (calls (trace s')) ! Suc i)))"
proof -
  let ?F = "\<lambda>i. found during self 0 i (alarm_list s)"
  let ?M = "\<lambda>i. (hd (?F i))\<lparr>executing := 1, executing_id := self\<rparr>"
  from dispatch_heads [OF assms, of now0] obtain s' w where
    r: "eal_alarm_callback clock during self now0 s = Some s'"
    and l: "alarm_list s' = ?F n"
    and t: "trace s' = trace s @ Lock # concat (map (\<lambda>i.
               [Unlock, Call (?M i), Lock, Free (?M i)]) [0..<n]) @ w @ [Unlock]"
    and w: "if ?F n = [] then w = [] else \<exists>iv. w = [Settime iv]"
    and o: "(\<forall>i<n. \<exists>rest. during i (?M i # tl (?F i)) = ?M i # rest \<and>
                sorted_wrt (\<lambda>a b. deadline_ns a \<le> deadline_ns b) (?M i # rest)) \<longrightarrow>
            (\<forall>i. Suc i < n \<longrightarrow> deadline_ns (hd (?F i)) \<le> deadline_ns (hd (?F (Suc i))))"
    by blast
  from w have cw: "calls w = []"
    by (auto split: if_splits)
  have c: "calls (trace s') = calls (trace s) @ map ?M [0..<n]"
    unfolding t by (simp add: calls_append calls_dispatches cw del: upt_Suc)
  then have d: "drop (length (calls (trace s))) (calls (trace s')) = map ?M [0..<n]"
    by simp
  have m: "deadline_ns (?M i) = deadline_ns (hd (?F i))" for i
    by (simp add: deadline_ns_def)
  have o': "deadline_ns (map ?M [0..<n] ! i) \<le> deadline_ns (map ?M [0..<n] ! Suc i)"
    if h: "\<forall>i<n. \<exists>rest. during i (?M i # tl (?F i)) = ?M i # rest \<and>
                sorted_wrt (\<lambda>a b. deadline_ns a \<le> deadline_ns b) (?M i # rest)"
      and i: "Suc i < n" for i
  proof -
    from o h i have "deadline_ns (hd (?F i)) \<le> deadline_ns (hd (?F (Suc i)))"
      by blast
    moreover from i have "map ?M [0..<n] ! i = ?M i" "map ?M [0..<n] ! Suc i = ?M (Suc i)"
      by (simp_all del: upt_Suc found.simps)
    ultimately show ?thesis
      by (simp only: m)
  qed
  have o'': "(\<forall>i<n. \<exists>rest. during i (?M i # tl (?F i)) = ?M i # rest \<and>
                sorted_wrt (\<lambda>a b. deadline_ns a \<le> deadline_ns b) (?M i # rest)) \<longrightarrow>
            (\<forall>i. Suc i < n \<longrightarrow>
               deadline_ns (drop (length (calls (trace s))) (calls (trace s')) ! i) \<le>
               deadline_ns (drop (length (calls (trace s))) (calls (trace s')) ! Suc i))"
    unfolding d using o' by blast
  show ?thesis
    by (intro exI [of _ s'] exI [of _ w] conjI) (fact r l t w d o'')+
qed

theorem dispatch_head_order_witness:
  "\<exists>s' iv. eal_alarm_callback (clock_at 6 0) callback_cancels 9 \<lparr>ts_sec = 0, tv_nsec = 0\<rparr>
     (engine [entry 0x1000 5 0 7 1 0 0, entry 0x2000 5 500000 7 2 0 0,
              entry 0x3000 6 500 8 3 0 0]) = Some s' \<and>
     alarm_list s' = [entry 0x3000 6 500 8 3 0 0] \<and>
     trace s' = [Lock, Unlock, Call (entry 0x1000 5 0 7 1 1 9), Lock,
                 Free (entry 0x1000 5 0 7 1 1 9), Settime iv, Unlock] \<and>
     calls (trace s') = [entry 0x1000 5 0 7 1 1 9]"
proof -
  let ?L = "[entry 0x1000 5 0 7 1 0 0, entry 0x2000 5 500000 7 2 0 0, entry 0x3000 6 500 8 3 0 0]"
  have f0: "found callback_cancels 9 0 0 (alarm_list (engine ?L)) = ?L"
    by (simp add: engine_def)
  have f1: "found callback_cancels 9 0 (Suc 0) (alarm_list (engine ?L)) =
      [entry 0x3000 6 500 8 3 0 0]"
    by (simp add: callback_cancels_def rte_eal_alarm_cancel_def cancel_loop.simps
        cancel_pass_def nobody_def alarm_match_def pthread_equal_def EINPROGRESS_def
        engine_def entry_def)
  have h1: "\<forall>i\<le>Suc 0. \<forall>t. clock_at 6 0 i = Some t \<longrightarrow>
             0 \<le> sint (tv_nsec t) \<and> sint (tv_nsec t) < 1000000000"
    by (auto simp: clock_at_def)
  have h2: "\<forall>i\<le>Suc 0. found callback_cancels 9 0 i (alarm_list (engine ?L)) \<noteq> [] \<longrightarrow>
       0 \<le> sint (tv_usec (time (hd (found callback_cancels 9 0 i (alarm_list (engine ?L)))))) \<and>
       sint (tv_usec (time (hd (found callback_cancels 9 0 i (alarm_list (engine ?L)))))) < 1000000"
    unfolding le_Suc_eq le_zero_eq using f0 f1 by (auto simp: entry_def simp del: found.simps)
  have h3: "\<forall>i<Suc 0. found callback_cancels 9 0 i (alarm_list (engine ?L)) \<noteq> [] \<and>
       (\<exists>t. clock_at 6 0 i = Some t \<and>
            deadline_ns (hd (found callback_cancels 9 0 i (alarm_list (engine ?L)))) \<le> clock_ns t)"
    by (simp add: engine_def entry_def clock_at_def deadline_ns_def clock_ns_def)
  have h4: "found callback_cancels 9 0 (Suc 0) (alarm_list (engine ?L)) = [] \<or>
      clock_at 6 0 (Suc 0) = None \<or>
      (\<exists>t. clock_at 6 0 (Suc 0) = Some t \<and>
           clock_ns t < deadline_ns (hd (found callback_cancels 9 0 (Suc 0) (alarm_list (engine ?L)))))"
    unfolding f1 by (simp add: entry_def clock_at_def deadline_ns_def clock_ns_def)
  from dispatch_head_order [OF h1 h2 h3 h4, of "\<lparr>ts_sec = 0, tv_nsec = 0\<rparr>"] obtain s' w where
    r: "eal_alarm_callback (clock_at 6 0) callback_cancels 9 \<lparr>ts_sec = 0, tv_nsec = 0\<rparr>
          (engine ?L) = Some s'"
    and l: "alarm_list s' = found callback_cancels 9 0 (Suc 0) (alarm_list (engine ?L))"
    and t: "trace s' = trace (engine ?L) @ Lock # concat (map (\<lambda>i.
               [Unlock,
                Call ((hd (found callback_cancels 9 0 i (alarm_list (engine ?L))))
                        \<lparr>executing := 1, executing_id := 9\<rparr>),
                Lock,
                Free ((hd (found callback_cancels 9 0 i (alarm_list (engine ?L))))
                        \<lparr>executing := 1, executing_id := 9\<rparr>)])
               [0..<Suc 0]) @ w @ [Unlock]"
    and w: "if found callback_cancels 9 0 (Suc 0) (alarm_list (engine ?L)) = [] then w = []
            else \<exists>iv. w = [Settime iv]"
    and d: "drop (length (calls (trace (engine ?L)))) (calls (trace s')) =
             map (\<lambda>i. (hd (found callback_cancels 9 0 i (alarm_list (engine ?L))))
                         \<lparr>executing := 1, executing_id := 9\<rparr>) [0..<Suc 0]"
    by blast
  from d have d': "calls (trace s') = [entry 0x1000 5 0 7 1 1 9]"
    by (simp add: engine_def entry_def)
  from l have l': "alarm_list s' = [entry 0x3000 6 500 8 3 0 0]"
    unfolding f1 .
  from w obtain iv where w': "w = [Settime iv]"
    unfolding f1 by auto
  have t': "trace s' = [Lock, Unlock, Call (entry 0x1000 5 0 7 1 1 9), Lock,
                 Free (entry 0x1000 5 0 7 1 1 9), Settime iv, Unlock]"
    unfolding t w' by (simp add: engine_def entry_def)
  from r l' t' d' show ?thesis by blast
qed

text \<open>
  C5. \<open>rte_eal_alarm_set\<close> returns \<open>-EINVAL\<close> exactly when \<open>us < 1\<close>, or
  \<open>us > UINT64_MAX - 10\<^sup>6\<close>, or the callback is null, and then the state is unchanged:
  nothing is inserted, registered or written to the timer. \<open>timerfd_settime\<close> returns 0
  or \<open>-1\<close>.
\<close>

theorem set_invalid_argument:
  assumes "settime_ret env = 0 \<or> settime_ret env = - 1"
  shows "(fst (rte_eal_alarm_set env us cb arg s) = - EINVAL \<longleftrightarrow>
            us < 1 \<or> us > UINT64_MAX - US_PER_S \<or> cb = 0) \<and>
         (us < 1 \<or> us > UINT64_MAX - US_PER_S \<or> cb = 0 \<longrightarrow>
            snd (rte_eal_alarm_set env us cb arg s) = s) \<and>
         EINVAL = 22 \<and> uint (UINT64_MAX - US_PER_S) = 2 ^ 64 - 1 - 10 ^ 6"
proof (cases "us < 1 \<or> us > UINT64_MAX - US_PER_S \<or> cb = 0")
  case True
  then show ?thesis
    by (simp add: rte_eal_alarm_set_def EINVAL_def UINT64_MAX_def US_PER_S_val)
next
  case False
  have c: "EINVAL = 22 \<and> uint (UINT64_MAX - US_PER_S) = 2 ^ 64 - 1 - 10 ^ 6"
    by (simp add: EINVAL_def UINT64_MAX_def US_PER_S_val)
  show ?thesis
  proof (cases "calloc_ret env = 0")
    case True
    with False c show ?thesis
      by (simp add: rte_eal_alarm_set_def EINVAL_def ENOMEM_def)
  next
    case nz: False
    have "fst (rte_eal_alarm_set env us cb arg s) \<noteq> - EINVAL"
      unfolding set_admitted(4) [OF False nz] using assms by (auto simp: EINVAL_def)
    with False c show ?thesis by blast
  qed
qed

theorem set_invalid_argument_witness:
  "rte_eal_alarm_set
     \<lparr>calloc_ret = 0x1000, clock_now = \<lparr>ts_sec = 5, tv_nsec = 0\<rparr>, register_ret = 0,
      settime_ret = 0\<rparr> 0xFFFFFFFFFFFFFFFF 7 0 (engine []) = (- 22, engine [])"
  using set_invalid_argument [where us = "0xFFFFFFFFFFFFFFFF" and cb = 7 and arg = 0
      and s = "engine []"
      and env = "\<lparr>calloc_ret = 0x1000, clock_now = \<lparr>ts_sec = 5, tv_nsec = 0\<rparr>,
                   register_ret = 0, settime_ret = 0\<rparr>"]
  by (simp add: rte_eal_alarm_set_def new_alarm_def sdiv64_def signed_divide_int_def later_def
      UINT64_MAX_def US_PER_S_def US_PER_MS_def MS_PER_S_def NS_PER_US_def EINVAL_def ENOMEM_def
      engine_def entry_def Let_def)

text \<open>
  C6. For an admitted call whose allocation succeeds, the stored deadline satisfies
  \<open>tv_sec \<cdot> 10\<^sup>6 + tv_usec = (now.tv_sec \<cdot> 10\<^sup>6 + now.tv_nsec / 1000) + us\<close> with
  \<open>0 \<le> tv_usec < 10\<^sup>6\<close>, and the sum \<open>now.tv_nsec / 1000 + us\<close> does not wrap around in
  64 bits. The clock reading is a \<open>timespec\<close> with \<open>0 \<le> tv_nsec < 10\<^sup>9\<close>, and the seconds
  of the deadline fit the signed 64-bit \<open>time_t\<close>.
\<close>

theorem set_deadline:
  assumes "\<not> (us < 1 \<or> us > UINT64_MAX - US_PER_S \<or> cb = 0)"
    and "calloc_ret env \<noteq> 0"
    and "0 \<le> sint (tv_nsec (clock_now env))"
    and "sint (tv_nsec (clock_now env)) < 1000000000"
    and "sint (ts_sec (clock_now env)) +
           (sint (tv_nsec (clock_now env)) div 1000 + uint us) div 1000000 < 2 ^ 63"
  shows "\<exists>ap\<in>set (alarm_list (snd (rte_eal_alarm_set env us cb arg s))).
           addr ap = calloc_ret env \<and> cb_fn ap = cb \<and> cb_arg ap = arg \<and>
           sint (tv_sec (time ap)) * 1000000 + sint (tv_usec (time ap)) =
             (sint (ts_sec (clock_now env)) * 1000000 + sint (tv_nsec (clock_now env)) div 1000)
               + uint us \<and>
           0 \<le> sint (tv_usec (time ap)) \<and> sint (tv_usec (time ap)) < 1000000 \<and>
           uint (sdiv64 (tv_nsec (clock_now env)) NS_PER_US + us) =
             sint (tv_nsec (clock_now env)) div 1000 + uint us"
proof -
  let ?new = "new_alarm (calloc_ret env) (clock_now env) us cb arg"
  let ?m = "sint (tv_nsec (clock_now env)) div 1000 + uint us"
  from assms(1) have adm: "\<not> (us < 1 \<or> us > UINT64_MAX - US_PER_S)" by blast
  have t: "uint (sdiv64 (tv_nsec (clock_now env)) NS_PER_US + us) = ?m"
    "sint (tv_usec (time ?new)) = ?m mod 1000000"
    "sint (tv_sec (time ?new)) = sint (ts_sec (clock_now env)) + ?m div 1000000"
    using new_alarm_time [OF adm assms(3,4,5), of "calloc_ret env" cb arg] by blast+
  have "sint (tv_sec (time ?new)) * 1000000 + sint (tv_usec (time ?new)) =
      sint (ts_sec (clock_now env)) * 1000000 + ?m"
    unfolding t by (simp add: algebra_simps)
  moreover have "0 \<le> sint (tv_usec (time ?new))" "sint (tv_usec (time ?new)) < 1000000"
    unfolding t by simp_all
  moreover have "addr ?new = calloc_ret env" "cb_fn ?new = cb" "cb_arg ?new = arg"
    by (simp_all add: new_alarm_def)
  moreover have "?new \<in> set (alarm_list (snd (rte_eal_alarm_set env us cb arg s)))"
    unfolding set_admitted(1) [OF assms(1,2)] by (rule new_in_alarm_insert)
  ultimately show ?thesis
    using t(1) by (intro bexI [of _ ?new]) simp_all
qed

theorem set_deadline_witness:
  "alarm_list (snd (rte_eal_alarm_set
     \<lparr>calloc_ret = 0x1000, clock_now = \<lparr>ts_sec = 5, tv_nsec = 999999999\<rparr>, register_ret = 0,
      settime_ret = 0\<rparr> 30000 7 1 (engine []))) = [entry 0x1000 6 29999 7 1 0 0] \<and>
   (6 :: int) * 1000000 + 29999 = (5 * 1000000 + 999999999 div 1000) + 30000"
  using set_deadline [where us = 30000 and cb = 7 and arg = 1 and s = "engine []"
      and env = "\<lparr>calloc_ret = 0x1000, clock_now = \<lparr>ts_sec = 5, tv_nsec = 999999999\<rparr>,
                   register_ret = 0, settime_ret = 0\<rparr>"]
  by (simp add: rte_eal_alarm_set_def new_alarm_def sdiv64_def signed_divide_int_def later_def
      UINT64_MAX_def US_PER_S_def US_PER_MS_def MS_PER_S_def NS_PER_US_def EINVAL_def ENOMEM_def
      engine_def entry_def Let_def)

text \<open>
  C7. A set call that passes the argument check and the allocation inserts the new record
  after every entry whose deadline \<open>(tv_sec, tv_usec)\<close> is not later than its own, those
  with an equal deadline included, and before every entry whose deadline is later; a list
  sorted non-decreasingly by deadline stays sorted.
\<close>

theorem set_inserts_in_order:
  assumes "\<not> (us < 1 \<or> us > UINT64_MAX - US_PER_S \<or> cb = 0)"
    and "calloc_ret env \<noteq> 0"
    and "sorted_wrt (\<lambda>a b. deadline_key a \<le> deadline_key b) (alarm_list s)"
  shows "alarm_list (snd (rte_eal_alarm_set env us cb arg s)) =
           filter (\<lambda>ap. deadline_key ap \<le>
                         deadline_key (new_alarm (calloc_ret env) (clock_now env) us cb arg))
             (alarm_list s) @
           new_alarm (calloc_ret env) (clock_now env) us cb arg #
           filter (\<lambda>ap. deadline_key (new_alarm (calloc_ret env) (clock_now env) us cb arg) <
                         deadline_key ap)
             (alarm_list s) \<and>
         sorted_wrt (\<lambda>a b. deadline_key a \<le> deadline_key b)
           (alarm_list (snd (rte_eal_alarm_set env us cb arg s))) \<and>
         (deadline_key a \<le> deadline_key b \<longleftrightarrow>
            sint (tv_sec (time a)) < sint (tv_sec (time b)) \<or>
            (sint (tv_sec (time a)) = sint (tv_sec (time b)) \<and>
             sint (tv_usec (time a)) \<le> sint (tv_usec (time b))))"
  unfolding set_admitted(1) [OF assms(1,2)]
  using alarm_insert_key [OF assms(3)] deadline_key_le_iff by blast

theorem set_inserts_in_order_witness:
  "sorted_wrt (\<lambda>a b. deadline_key a \<le> deadline_key b)
     [entry 0x1000 6 10000 7 1 0 0, entry 0x2000 6 50000 7 2 0 0] \<and>
   alarm_list (snd (rte_eal_alarm_set
     \<lparr>calloc_ret = 0x3000, clock_now = \<lparr>ts_sec = 5, tv_nsec = 999999999\<rparr>, register_ret = 0,
      settime_ret = 0\<rparr> 30000 8 3
     (engine [entry 0x1000 6 10000 7 1 0 0, entry 0x2000 6 50000 7 2 0 0]))) =
     [entry 0x1000 6 10000 7 1 0 0, entry 0x3000 6 29999 8 3 0 0, entry 0x2000 6 50000 7 2 0 0]"
  using set_inserts_in_order [where us = 30000 and cb = 8 and arg = 3
      and s = "engine [entry 0x1000 6 10000 7 1 0 0, entry 0x2000 6 50000 7 2 0 0]"
      and env = "\<lparr>calloc_ret = 0x3000, clock_now = \<lparr>ts_sec = 5, tv_nsec = 999999999\<rparr>,
                   register_ret = 0, settime_ret = 0\<rparr>"]
  by (simp add: rte_eal_alarm_set_def new_alarm_def sdiv64_def signed_divide_int_def later_def
      deadline_key_def
      UINT64_MAX_def US_PER_S_def US_PER_MS_def MS_PER_S_def NS_PER_US_def EINVAL_def ENOMEM_def
      engine_def entry_def Let_def)

text \<open>
  C8. When no matching entry is executing on another thread, the call makes one pass (one
  \<open>Lock\<close>, one \<open>Unlock\<close>) and returns; when moreover a matching entry is executing on
  the calling thread, the self-cancel case, it returns with \<open>rte_errno = EINPROGRESS\<close>.
  In every pass, the loop condition \<open>executing != 0\<close> holds exactly when the pass met a
  matching entry executing on another thread.
\<close>

theorem self_cancel_one_pass:
  assumes "cb \<noteq> 0"
    and "\<not> (\<exists>ap\<in>set (alarm_list s). busy_other cb arg self ap)"
  shows "(\<exists>s'. rte_eal_alarm_cancel other cb arg self s =
            Some (int (length (filter (cancellable cb arg) (alarm_list s))), s') \<and>
          trace s' = trace s @ Lock #
            map Free (filter (cancellable cb arg) (alarm_list s)) @ [Unlock] \<and>
          ((\<exists>ap\<in>set (alarm_list s). busy_self cb arg self ap) \<longrightarrow>
             rte_errno s' = EINPROGRESS)) \<and>
         (fst (snd (snd (snd (cancel_pass cb arg self l count err)))) \<noteq> 0 \<longleftrightarrow>
          (\<exists>ap\<in>set l. busy_other cb arg self ap))"
proof
  show "\<exists>s'. rte_eal_alarm_cancel other cb arg self s =
            Some (int (length (filter (cancellable cb arg) (alarm_list s))), s') \<and>
          trace s' = trace s @ Lock #
            map Free (filter (cancellable cb arg) (alarm_list s)) @ [Unlock] \<and>
          ((\<exists>ap\<in>set (alarm_list s). busy_self cb arg self ap) \<longrightarrow>
             rte_errno s' = EINPROGRESS)"
    unfolding rte_eal_alarm_cancel_def cancel_loop_stop [OF assms(2)]
    using assms(1) EINPROGRESS_nonzero by auto
  show "fst (snd (snd (snd (cancel_pass cb arg self l count err)))) \<noteq> 0 \<longleftrightarrow>
         (\<exists>ap\<in>set l. busy_other cb arg self ap)"
    using cancel_pass_eq [of cb arg self l count err] by auto
qed

theorem self_cancel_one_pass_witness:
  "\<exists>s'. rte_eal_alarm_cancel nobody 7 (- 1) 9
          (engine [entry 0x1000 1 0 7 1 1 9, entry 0x2000 2 0 7 2 0 0]) = Some (1, s') \<and>
        trace s' = [Lock, Free (entry 0x2000 2 0 7 2 0 0), Unlock] \<and>
        rte_errno s' = EINPROGRESS"
  using self_cancel_one_pass [where cb = 7 and other = nobody and arg = "- 1" and self = 9
      and s = "engine [entry 0x1000 1 0 7 1 1 9, entry 0x2000 2 0 7 2 0 0]"]
  by (simp add: engine_def entry_def nobody_def busy_other_def busy_self_def
      cancellable_def alarm_match_def pthread_equal_def)

text \<open>
  C9. When \<open>rte_intr_callback_register\<close> fails inside set, the alarm is inserted all the
  same, the list and the return value are what they are when registration succeeds,
  \<open>handler_registered\<close> stays 0, and every admitted set call that follows calls
  \<open>rte_intr_callback_register\<close> again, first thing under the lock.
\<close>

theorem set_registration_failure:
  assumes "\<not> (us < 1 \<or> us > UINT64_MAX - US_PER_S \<or> cb = 0)"
    and "calloc_ret env \<noteq> 0"
    and "handler_registered s = 0"
    and "register_ret env \<noteq> 0"
  shows "new_alarm (calloc_ret env) (clock_now env) us cb arg
           \<in> set (alarm_list (snd (rte_eal_alarm_set env us cb arg s))) \<and>
         alarm_list (snd (rte_eal_alarm_set env us cb arg s)) =
           alarm_list (snd (rte_eal_alarm_set (env\<lparr>register_ret := 0\<rparr>) us cb arg s)) \<and>
         fst (rte_eal_alarm_set env us cb arg s) =
           fst (rte_eal_alarm_set (env\<lparr>register_ret := 0\<rparr>) us cb arg s) \<and>
         handler_registered (snd (rte_eal_alarm_set env us cb arg s)) = 0 \<and>
         (\<forall>env' us' cb' arg'.
            \<not> (us' < 1 \<or> us' > UINT64_MAX - US_PER_S \<or> cb' = 0) \<and> calloc_ret env' \<noteq> 0 \<longrightarrow>
            (\<exists>w. trace (snd (rte_eal_alarm_set env' us' cb' arg'
                               (snd (rte_eal_alarm_set env us cb arg s)))) =
                    trace (snd (rte_eal_alarm_set env us cb arg s)) @ Lock # Register # w) \<and>
            handler_registered (snd (rte_eal_alarm_set env' us' cb' arg'
                               (snd (rte_eal_alarm_set env us cb arg s)))) =
              (if register_ret env' = 0 then 1 else 0))"
proof -
  let ?s' = "snd (rte_eal_alarm_set env us cb arg s)"
  have h: "handler_registered ?s' = 0"
    unfolding set_admitted(2) [OF assms(1,2)] using assms(3,4) by simp
  have c: "calloc_ret (env\<lparr>register_ret := 0\<rparr>) \<noteq> 0"
    using assms(2) by simp
  have 1: "new_alarm (calloc_ret env) (clock_now env) us cb arg \<in> set (alarm_list ?s')"
    unfolding set_admitted(1) [OF assms(1,2)] by (rule new_in_alarm_insert)
  have 2: "alarm_list ?s' =
      alarm_list (snd (rte_eal_alarm_set (env\<lparr>register_ret := 0\<rparr>) us cb arg s))"
    unfolding set_admitted(1) [OF assms(1,2)] set_admitted(1) [OF assms(1) c] by simp
  have 3: "fst (rte_eal_alarm_set env us cb arg s) =
      fst (rte_eal_alarm_set (env\<lparr>register_ret := 0\<rparr>) us cb arg s)"
    unfolding set_admitted(4) [OF assms(1,2)] set_admitted(4) [OF assms(1) c] by simp
  have 4: "(\<exists>w. trace (snd (rte_eal_alarm_set env' us' cb' arg' ?s')) =
                    trace ?s' @ Lock # Register # w) \<and>
            handler_registered (snd (rte_eal_alarm_set env' us' cb' arg' ?s')) =
              (if register_ret env' = 0 then 1 else 0)"
    if "\<not> (us' < 1 \<or> us' > UINT64_MAX - US_PER_S \<or> cb' = 0) \<and> calloc_ret env' \<noteq> 0"
    for env' us' cb' arg'
  proof -
    from that have a: "\<not> (us' < 1 \<or> us' > UINT64_MAX - US_PER_S \<or> cb' = 0)"
      and b: "calloc_ret env' \<noteq> 0" by blast+
    from set_admitted(5) [OF a b, of arg' ?s'] h
    have "\<exists>w. trace (snd (rte_eal_alarm_set env' us' cb' arg' ?s')) =
                    trace ?s' @ Lock # Register # w"
      by auto
    moreover have "handler_registered (snd (rte_eal_alarm_set env' us' cb' arg' ?s')) =
              (if register_ret env' = 0 then 1 else 0)"
      unfolding set_admitted(2) [OF a b] using h by simp
    ultimately show ?thesis by blast
  qed
  from 1 2 3 h 4 show ?thesis by blast
qed

theorem set_registration_failure_witness:
  "rte_eal_alarm_set
     \<lparr>calloc_ret = 0x1000, clock_now = \<lparr>ts_sec = 5, tv_nsec = 0\<rparr>, register_ret = - 1,
      settime_ret = 0\<rparr> 30000 7 1 (engine []) =
   (0, \<lparr>alarm_list = [entry 0x1000 5 30000 7 1 0 0], handler_registered = 0, rte_errno = 0,
        trace = [Lock, Register, Settime \<lparr>ts_sec = 0, tv_nsec = 30000000\<rparr>, Unlock]\<rparr>) \<and>
   handler_registered (snd (rte_eal_alarm_set
     \<lparr>calloc_ret = 0x2000, clock_now = \<lparr>ts_sec = 5, tv_nsec = 0\<rparr>, register_ret = 0,
      settime_ret = 0\<rparr> 40000 7 2
     (snd (rte_eal_alarm_set
       \<lparr>calloc_ret = 0x1000, clock_now = \<lparr>ts_sec = 5, tv_nsec = 0\<rparr>, register_ret = - 1,
        settime_ret = 0\<rparr> 30000 7 1 (engine []))))) = 1"
  using set_registration_failure [where us = 30000 and cb = 7 and arg = 1 and s = "engine []"
      and env = "\<lparr>calloc_ret = 0x1000, clock_now = \<lparr>ts_sec = 5, tv_nsec = 0\<rparr>,
                   register_ret = - 1, settime_ret = 0\<rparr>"]
  by (simp add: rte_eal_alarm_set_def new_alarm_def sdiv64_def signed_divide_int_def later_def
      UINT64_MAX_def US_PER_S_def US_PER_MS_def MS_PER_S_def NS_PER_US_def EINVAL_def ENOMEM_def
      engine_def entry_def Let_def)

text \<open>
  C10. \<open>(void *)-1\<close> is the wildcard: with that argument an entry matches as soon as its
  callback does, whatever its own argument, the value \<open>(void *)-1\<close> included; every pass
  of such a call removes all entries of the callback that are not executing, and so does
  the whole call when no entry of the callback is executing on another thread. No cancel
  call can name the argument \<open>(void *)-1\<close> alone.
\<close>

theorem wildcard_cancel:
  "(alarm_match cb (- 1) ap \<longleftrightarrow> cb = cb_fn ap) \<and>
   fst (cancel_pass cb (- 1) self l count err) =
     filter (\<lambda>ap. \<not> (cb_fn ap = cb \<and> executing ap = 0)) l \<and>
   (cb \<noteq> 0 \<and> \<not> (\<exists>ap\<in>set (alarm_list s). busy_other cb (- 1) self ap) \<longrightarrow>
    (\<exists>s'. rte_eal_alarm_cancel other cb (- 1) self s =
            Some (int (length (filter (\<lambda>ap. cb_fn ap = cb \<and> executing ap = 0)
                                (alarm_list s))), s') \<and>
          alarm_list s' =
            filter (\<lambda>ap. \<not> (cb_fn ap = cb \<and> executing ap = 0)) (alarm_list s)))"
proof -
  have c: "cancellable cb (- 1) = (\<lambda>ap. cb_fn ap = cb \<and> executing ap = 0)"
    by (auto simp: cancellable_def alarm_match_def fun_eq_iff)
  have 1: "alarm_match cb (- 1) ap \<longleftrightarrow> cb = cb_fn ap"
    by (simp add: alarm_match_def)
  have 2: "fst (cancel_pass cb (- 1) self l count err) =
     filter (\<lambda>ap. \<not> (cb_fn ap = cb \<and> executing ap = 0)) l"
    using cancel_pass_eq [of cb "- 1" self l count err] unfolding c by auto
  have 3: "\<exists>s'. rte_eal_alarm_cancel other cb (- 1) self s =
           Some (int (length (filter (\<lambda>ap. cb_fn ap = cb \<and> executing ap = 0)
                               (alarm_list s))), s') \<and>
         alarm_list s' = filter (\<lambda>ap. \<not> (cb_fn ap = cb \<and> executing ap = 0)) (alarm_list s)"
    if "cb \<noteq> 0" "\<not> (\<exists>ap\<in>set (alarm_list s). busy_other cb (- 1) self ap)"
    unfolding rte_eal_alarm_cancel_def cancel_loop_stop [OF that(2)]
    using that(1) unfolding c by auto
  from 1 2 3 show ?thesis by blast
qed

theorem wildcard_cancel_witness:
  "\<exists>s'. rte_eal_alarm_cancel nobody 7 (- 1) 9
          (engine [entry 0x1000 1 0 7 1 0 0, entry 0x2000 1 0 7 (- 1) 0 0,
                   entry 0x3000 1 0 8 3 0 0]) = Some (2, s') \<and>
        alarm_list s' = [entry 0x3000 1 0 8 3 0 0]"
  using wildcard_cancel [where cb = 7 and other = nobody and self = 9
      and s = "engine [entry 0x1000 1 0 7 1 0 0, entry 0x2000 1 0 7 (- 1) 0 0,
                   entry 0x3000 1 0 8 3 0 0]"]
  by (simp add: engine_def entry_def nobody_def busy_other_def busy_self_def
      cancellable_def alarm_match_def pthread_equal_def)

end
